theory Spec2Isabelle
  imports Complex_Main "HOL-Library.Word" "HOL-Library.Sublist"
begin

section \<open>The streamed-download consumer of \<^verbatim>\<open>src/StreamingDownload.tsx\<close>\<close>

text \<open>
  The component's \<^verbatim>\<open>handleDownload\<close> posts a request, reads the response body chunk by
  chunk, takes a one-line header \<^verbatim>\<open>name|size\<close> off the first chunk that holds a line
  feed, buffers the rest and hands the assembled blob to the browser under a derived
  file name. The embedding follows the source line by line. What the source takes from
  the platform (\<^verbatim>\<open>TextDecoder\<close>, \<^verbatim>\<open>String.prototype.indexOf/slice/split/replace\<close>,
  \<^verbatim>\<open>parseInt\<close>, \<^verbatim>\<open>Response.ok\<close>) is modelled from the standards that define it.

  Conventions.
  \<^item> A \<^verbatim>\<open>Uint8Array\<close> is a list of 8-bit words; a JavaScript string is the list of its
    UTF-16 code units (16-bit words), which is what \<^verbatim>\<open>indexOf\<close>, \<^verbatim>\<open>slice\<close> and
    \<^verbatim>\<open>length\<close> count.
  \<^item> A JavaScript Number is an IEEE 754 double, held as the rational it denotes (or NaN,
    an infinity, the negative zero); every arithmetic operation of the source rounds its
    exact result to the nearest double, ties to even.
  \<^item> The calls of React's state setters and the file hand-over are an event trace, in
    program order.
\<close>

subsection \<open>Bytes and strings\<close>

type_synonym byte = "8 word"
type_synonym code_unit = "16 word"
type_synonym js_string = "code_unit list"

text \<open>A string literal of the source: every character of it is ASCII.\<close>

definition js :: "string \<Rightarrow> js_string" where
  "js s = map (\<lambda>c. of_nat (of_char c)) s"

definition newline :: code_unit where
  "newline = 0x0A"

definition bar :: code_unit where
  "bar = 0x7C"

definition dot :: code_unit where
  "dot = 0x2E"

definition slash :: code_unit where
  "slash = 0x2F"

subsection \<open>\<^verbatim>\<open>new TextDecoder().decode(value)\<close>\<close>

text \<open>
  The UTF-8 decoder of the WHATWG Encoding standard, in replacement mode (\<^verbatim>\<open>fatal\<close> is
  false by default). Its state is the standard's five variables. The standard's
  \<^verbatim>\<open>byte & 0x1F\<close>, \<^verbatim>\<open>byte & 0xF\<close>, \<^verbatim>\<open>byte & 0x7\<close>, \<^verbatim>\<open>byte & 0x3F\<close> are written
  \<open>mod 32\<close>, \<open>mod 16\<close>, \<open>mod 8\<close>, \<open>mod 64\<close>, and \<^verbatim>\<open>(code point << 6) | x\<close> with
  \<open>x < 64\<close> is \<open>code_point * 64 + x\<close>.
\<close>

record utf8_state =
  code_point :: nat
  bytes_seen :: nat
  bytes_needed :: nat
  lower_boundary :: nat
  upper_boundary :: nat

definition utf8_initial :: utf8_state where
  "utf8_initial =
     \<lparr>code_point = 0, bytes_seen = 0, bytes_needed = 0,
      lower_boundary = 0x80, upper_boundary = 0xBF\<rparr>"

text \<open>Step 3 of the handler: no byte is pending. The result is the new state and the
  code points emitted (U+FFFD for an error).\<close>

definition utf8_lead :: "nat \<Rightarrow> utf8_state \<times> nat list" where
  "utf8_lead b =
     (if b \<le> 0x7F then (utf8_initial, [b])
      else if 0xC2 \<le> b \<and> b \<le> 0xDF then
        (utf8_initial\<lparr>bytes_needed := 1, code_point := b mod 32\<rparr>, [])
      else if 0xE0 \<le> b \<and> b \<le> 0xEF then
        (utf8_initial\<lparr>lower_boundary := (if b = 0xE0 then 0xA0 else 0x80),
                      upper_boundary := (if b = 0xED then 0x9F else 0xBF),
                      bytes_needed := 2, code_point := b mod 16\<rparr>, [])
      else if 0xF0 \<le> b \<and> b \<le> 0xF4 then
        (utf8_initial\<lparr>lower_boundary := (if b = 0xF0 then 0x90 else 0x80),
                      upper_boundary := (if b = 0xF4 then 0x8F else 0xBF),
                      bytes_needed := 3, code_point := b mod 8\<rparr>, [])
      else (utf8_initial, [0xFFFD]))"

text \<open>The handler on one byte. A byte outside the boundaries ends the pending sequence
  with an error, and is restored to the queue: it is handled again from the reset state
  (step 4).\<close>

definition utf8_handler :: "utf8_state \<Rightarrow> nat \<Rightarrow> utf8_state \<times> nat list" where
  "utf8_handler st b =
     (if bytes_needed st = 0 then utf8_lead b
      else if b < lower_boundary st \<or> upper_boundary st < b then
        (fst (utf8_lead b), 0xFFFD # snd (utf8_lead b))
      else if bytes_seen st + 1 \<noteq> bytes_needed st then
        (st\<lparr>lower_boundary := 0x80, upper_boundary := 0xBF,
            code_point := code_point st * 64 + b mod 64,
            bytes_seen := bytes_seen st + 1\<rparr>, [])
      else (utf8_initial, [code_point st * 64 + b mod 64]))"

text \<open>The queue read to its end; a sequence still pending there is an error (step 1).\<close>

fun utf8_run :: "utf8_state \<Rightarrow> byte list \<Rightarrow> nat list" where
  "utf8_run st [] = (if bytes_needed st \<noteq> 0 then [0xFFFD] else [])"
| "utf8_run st (b # bs) =
     snd (utf8_handler st (unat b)) @ utf8_run (fst (utf8_handler st (unat b))) bs"

text \<open>\<^verbatim>\<open>ignoreBOM\<close> is false by default: a first code point U+FEFF is left out.\<close>

definition strip_bom :: "nat list \<Rightarrow> nat list" where
  "strip_bom cps = (case cps of [] \<Rightarrow> [] | c # cs \<Rightarrow> if c = 0xFEFF then cs else c # cs)"

text \<open>A code point as UTF-16: one unit, or a surrogate pair from U+10000 on.\<close>

definition utf16_units :: "nat \<Rightarrow> code_unit list" where
  "utf16_units cp =
     (if cp < 0x10000 then [of_nat cp]
      else [of_nat (0xD800 + (cp - 0x10000) div 0x400),
            of_nat (0xDC00 + (cp - 0x10000) mod 0x400)])"

definition text_decode :: "byte list \<Rightarrow> js_string" where
  "text_decode v = concat (map utf16_units (strip_bom (utf8_run utf8_initial v)))"

subsection \<open>Numbers\<close>

text \<open>
  A Number of the source is an IEEE 754 double. A finite one is held as the rational it
  denotes: \<open>Num 0\<close> is the positive zero, and \<open>Num x\<close> with \<open>x\<close> other than zero is a
  value of the format.
\<close>

datatype number = NaN | PosInf | NegInf | NegZero | Num rat

text \<open>The binade of a positive rational \<open>a\<close>: the exponent \<open>e\<close> with
  \<open>2^e \<le> a < 2^(e+1)\<close>.\<close>

function binade :: "rat \<Rightarrow> int" where
  "binade a =
     (if a \<le> 0 then 0
      else if 2 \<le> a then binade (a / 2) + 1
      else if a < 1 then binade (a * 2) - 1
      else 0)"
  by pat_completeness auto
termination
proof (relation "measure (\<lambda>a. if 1 \<le> a then nat \<lfloor>a\<rfloor> else nat \<lfloor>1 / a\<rfloor> + 1)")
  show "wf (measure (\<lambda>a::rat. if 1 \<le> a then nat \<lfloor>a\<rfloor> else nat \<lfloor>1 / a\<rfloor> + 1))" by simp
next
  fix a :: rat
  assume "\<not> a \<le> 0" and a2: "2 \<le> a"
  have "\<lfloor>a / 2\<rfloor> < \<lfloor>a\<rfloor>"
  proof -
    have "a / 2 \<le> a - 1" using a2 by simp
    then have "\<lfloor>a / 2\<rfloor> \<le> \<lfloor>a - 1\<rfloor>" by (rule floor_mono)
    then show ?thesis by simp
  qed
  moreover have "0 < \<lfloor>a\<rfloor>" using a2 by simp
  ultimately show "(a / 2, a) \<in> measure (\<lambda>a. if 1 \<le> a then nat \<lfloor>a\<rfloor> else nat \<lfloor>1 / a\<rfloor> + 1)"
    using a2 by simp
next
  fix a :: rat
  assume pos: "\<not> a \<le> 0" and "\<not> 2 \<le> a" and lt: "a < 1"
  show "(a * 2, a) \<in> measure (\<lambda>a. if 1 \<le> a then nat \<lfloor>a\<rfloor> else nat \<lfloor>1 / a\<rfloor> + 1)"
  proof (cases "1 \<le> a * 2")
    case True
    then have "a * 2 < 2" using lt by simp
    then have "\<lfloor>a * 2\<rfloor> < 2" by (simp add: floor_less_iff)
    moreover have "1 \<le> 1 / a" using pos lt by simp
    then have "1 \<le> \<lfloor>1 / a\<rfloor>" by (simp add: le_floor_iff)
    ultimately have "nat \<lfloor>a * 2\<rfloor> < nat \<lfloor>1 / a\<rfloor> + 1" by linarith
    then show ?thesis using True lt by simp
  next
    case False
    then have h: "2 < 1 / a" using pos by (simp add: field_simps)
    have "1 / (a * 2) \<le> 1 / a - 1" using h pos by (simp add: field_simps)
    then have "\<lfloor>1 / (a * 2)\<rfloor> \<le> \<lfloor>1 / a - 1\<rfloor>" by (rule floor_mono)
    then have "\<lfloor>1 / (a * 2)\<rfloor> < \<lfloor>1 / a\<rfloor>" by simp
    moreover have "0 < \<lfloor>1 / a\<rfloor>" using h by (simp add: less_floor_iff)
    ultimately show ?thesis using False lt by simp
  qed
qed

declare binade.simps [simp del]

text \<open>The nearest integer, a tie going to the even one.\<close>

definition round_half_even :: "rat \<Rightarrow> int" where
  "round_half_even m =
     (if m - of_int \<lfloor>m\<rfloor> < 1 / 2 then \<lfloor>m\<rfloor>
      else if 1 / 2 < m - of_int \<lfloor>m\<rfloor> then \<lfloor>m\<rfloor> + 1
      else if even \<lfloor>m\<rfloor> then \<lfloor>m\<rfloor> else \<lfloor>m\<rfloor> + 1)"

text \<open>
  The Number value of an exact result \<open>x\<close> (roundTiesToEven). The doubles of binade \<open>e\<close>
  are the multiples of \<open>2^(e-52)\<close>; below binade -1022 the spacing stays \<open>2^-1074\<close> (the
  subnormal numbers). \<open>x\<close> is rounded to the nearest multiple \<open>n\<close>. The result is an
  infinity when it reaches \<open>2^1024\<close>, and a zero with the sign of \<open>x\<close> when \<open>n\<close> is zero.
\<close>

definition fl :: "rat \<Rightarrow> number" where
  "fl x =
     (if x = 0 then Num 0
      else
        (let e = max (binade \<bar>x\<bar>) (- 1022);
             n = round_half_even (\<bar>x\<bar> / 2 powi (e - 52))
         in if 1023 < e \<or> (e = 1023 \<and> 2 ^ 53 \<le> n) then (if x < 0 then NegInf else PosInf)
            else if n = 0 then (if x < 0 then NegZero else Num 0)
            else Num (if x < 0 then - (of_int n * 2 powi (e - 52))
                      else of_int n * 2 powi (e - 52))))"

fun is_neg :: "number \<Rightarrow> bool" where
  "is_neg NegInf = True"
| "is_neg NegZero = True"
| "is_neg (Num x) = (x < 0)"
| "is_neg n = False"

fun is_inf :: "number \<Rightarrow> bool" where
  "is_inf PosInf = True"
| "is_inf NegInf = True"
| "is_inf n = False"

fun is_zero :: "number \<Rightarrow> bool" where
  "is_zero NegZero = True"
| "is_zero (Num x) = (x = 0)"
| "is_zero n = False"

fun rat_of :: "number \<Rightarrow> rat" where
  "rat_of (Num x) = x"
| "rat_of n = 0"

definition signed_inf :: "bool \<Rightarrow> number" where
  "signed_inf neg = (if neg then NegInf else PosInf)"

definition signed_zero :: "bool \<Rightarrow> number" where
  "signed_zero neg = (if neg then NegZero else Num 0)"

text \<open>The operators \<^verbatim>\<open>+\<close>, \<^verbatim>\<open>-\<close>, \<^verbatim>\<open>*\<close> and \<^verbatim>\<open>/\<close> on Numbers (ECMAScript
  Number::add, subtract, multiply and divide, which are those of IEEE 754).\<close>

fun dneg :: "number \<Rightarrow> number" where
  "dneg NaN = NaN"
| "dneg PosInf = NegInf"
| "dneg NegInf = PosInf"
| "dneg NegZero = Num 0"
| "dneg (Num x) = (if x = 0 then NegZero else Num (- x))"

definition dadd :: "number \<Rightarrow> number \<Rightarrow> number" where
  "dadd a b =
     (if a = NaN \<or> b = NaN then NaN
      else if is_inf a \<and> is_inf b then (if a = b then a else NaN)
      else if is_inf a then a
      else if is_inf b then b
      else if is_zero a \<and> is_zero b then signed_zero (is_neg a \<and> is_neg b)
      else fl (rat_of a + rat_of b))"

definition dsub :: "number \<Rightarrow> number \<Rightarrow> number" where
  "dsub a b = dadd a (dneg b)"

definition dmul :: "number \<Rightarrow> number \<Rightarrow> number" where
  "dmul a b =
     (if a = NaN \<or> b = NaN then NaN
      else if is_inf a \<or> is_inf b then
        (if is_zero a \<or> is_zero b then NaN else signed_inf (is_neg a \<noteq> is_neg b))
      else if is_zero a \<or> is_zero b then signed_zero (is_neg a \<noteq> is_neg b)
      else fl (rat_of a * rat_of b))"

definition ddiv :: "number \<Rightarrow> number \<Rightarrow> number" where
  "ddiv a b =
     (if a = NaN \<or> b = NaN then NaN
      else if is_inf a then (if is_inf b then NaN else signed_inf (is_neg a \<noteq> is_neg b))
      else if is_inf b then signed_zero (is_neg a \<noteq> is_neg b)
      else if is_zero b then (if is_zero a then NaN else signed_inf (is_neg a \<noteq> is_neg b))
      else if is_zero a then signed_zero (is_neg a \<noteq> is_neg b)
      else fl (rat_of a / rat_of b))"

text \<open>A length (of a typed array, or an index into a string) as a Number.\<close>

definition num_of_nat :: "nat \<Rightarrow> number" where
  "num_of_nat n = fl (of_nat n)"

text \<open>A Number in a condition: NaN and the two zeros are falsy.\<close>

definition truthy :: "number \<Rightarrow> bool" where
  "truthy t = (t \<noteq> NaN \<and> t \<noteq> Num 0 \<and> t \<noteq> NegZero)"

subsection \<open>String operations of the source\<close>

text \<open>\<^verbatim>\<open>text.indexOf(c)\<close>: the first index of the unit, \<open>None\<close> for the source's \<open>-1\<close>.\<close>

fun indexOf :: "'a list \<Rightarrow> 'a \<Rightarrow> nat option" where
  "indexOf [] c = None"
| "indexOf (x # xs) c =
     (if x = c then Some 0 else (case indexOf xs c of None \<Rightarrow> None | Some i \<Rightarrow> Some (Suc i)))"

text \<open>\<^verbatim>\<open>s.split(sep)\<close> for a one-unit separator: the pieces between the separators, one
  piece (the empty string) for the empty string. The result is never empty, so the first
  branch of the \<open>case\<close> is not taken.\<close>

fun split :: "'a list \<Rightarrow> 'a \<Rightarrow> 'a list list" where
  "split [] sep = [[]]"
| "split (x # xs) sep =
     (if x = sep then [] # split xs sep
      else (case split xs sep of [] \<Rightarrow> [[x]] | p # ps \<Rightarrow> (x # p) # ps))"

text \<open>\<^verbatim>\<open>parseInt(size, 10)\<close> (ECMAScript): the argument as a string (\<^verbatim>\<open>undefined\<close> is the
  string "undefined"), leading white space dropped, an optional sign, then the longest
  run of decimal digits; no digit at all gives NaN.\<close>

text \<open>The result is the Number value of the signed integer read: the nearest double
  (the standard lets an implementation replace the digits after the 20th by zeros; the
  model rounds the exact value), an infinity from 309 digits on, and the negative zero
  for a zero after a minus sign.\<close>

definition is_white :: "code_unit \<Rightarrow> bool" where
  "is_white c =
     (c = 0x09 \<or> c = 0x0A \<or> c = 0x0B \<or> c = 0x0C \<or> c = 0x0D \<or> c = 0x20 \<or> c = 0xA0
      \<or> c = 0x1680 \<or> (0x2000 \<le> c \<and> c \<le> 0x200A) \<or> c = 0x2028 \<or> c = 0x2029
      \<or> c = 0x202F \<or> c = 0x205F \<or> c = 0x3000 \<or> c = 0xFEFF)"

definition is_digit :: "code_unit \<Rightarrow> bool" where
  "is_digit c = (0x30 \<le> c \<and> c \<le> 0x39)"

fun digits_value :: "int \<Rightarrow> js_string \<Rightarrow> int" where
  "digits_value acc [] = acc"
| "digits_value acc (c # cs) = digits_value (acc * 10 + (uint c - 0x30)) cs"

definition parseInt :: "js_string option \<Rightarrow> number" where
  "parseInt arg =
     (let inputString = (case arg of None \<Rightarrow> js ''undefined'' | Some s \<Rightarrow> s);
          S = dropWhile is_white inputString;
          sign = (if S \<noteq> [] \<and> hd S = 0x2D then - 1 else (1 :: int));
          S' = (if S \<noteq> [] \<and> (hd S = 0x2B \<or> hd S = 0x2D) then tl S else S);
          Z = takeWhile is_digit S'
      in if Z = [] then NaN
         else if digits_value 0 Z = 0 then (if sign = - 1 then NegZero else Num 0)
         else fl (of_int (sign * digits_value 0 Z)))"

text \<open>\<^verbatim>\<open>name.replace(/\.[^/.]+$/, "")\<close>: the leftmost match is removed. A match starts at a
  dot that is followed, up to the end of the string, by one or more units that are
  neither a slash nor a dot; it reaches the end, so what is left is the part before it.\<close>

fun strip_extension :: "js_string \<Rightarrow> js_string" where
  "strip_extension [] = []"
| "strip_extension (c # cs) =
     (if c = dot \<and> cs \<noteq> [] \<and> list_all (\<lambda>d. d \<noteq> slash \<and> d \<noteq> dot) cs then []
      else c # strip_extension cs)"

text \<open>A Number in a template literal: the decimal digits of a status code.\<close>

fun number_to_string :: "nat \<Rightarrow> js_string" where
  "number_to_string n =
     (if n < 10 then [of_nat (48 + n)]
      else number_to_string (n div 10) @ [of_nat (48 + n mod 10)])"

declare number_to_string.simps [simp del]

subsection \<open>The environment: the response of \<^verbatim>\<open>fetch\<close>\<close>

text \<open>What a \<^verbatim>\<open>catch\<close> receives: an \<^verbatim>\<open>Error\<close> object with its message, or any other value,
  kept as the string \<^verbatim>\<open>String(err)\<close> gives.\<close>

datatype thrown = Error js_string | NonError js_string

fun message :: "thrown \<Rightarrow> js_string" where
  "message (Error m) = m"
| "message (NonError s) = s"

text \<open>The body's reader delivers the chunks in order; after the last one, \<^verbatim>\<open>read()\<close>
  reports \<^verbatim>\<open>done\<close> (\<open>ending = None\<close>) or rejects. A reader that delivers chunks for ever
  is not a value of this type: the loop of line 49 has no other exit, and the attempt
  then neither completes nor fails.\<close>

record stream =
  stream_chunks :: "byte list list"
  ending :: "thrown option"

record response =
  status :: nat
  response_text :: "thrown + js_string"
  body :: "stream option"

text \<open>\<^verbatim>\<open>response.ok\<close> (Fetch standard): the status is in the range 200 to 299.\<close>

definition ok :: "response \<Rightarrow> bool" where
  "ok r = (200 \<le> status r \<and> status r \<le> 299)"

datatype fetch_result = Rejected thrown | Resolved response

subsection \<open>The component's state and its effects\<close>

datatype download_type = Video | Audio

record ui_state =
  url :: js_string
  downloadType :: download_type
  isDownloading :: bool
  progress :: number
  fileName :: js_string
  error :: js_string

text \<open>The effects of \<^verbatim>\<open>handleDownload\<close>: the four state setters, and \<open>SaveFile\<close> for lines
  79 to 88, where the blob of the buffered chunks is given to the browser under the
  name of the anchor's \<^verbatim>\<open>download\<close> attribute.\<close>

datatype event =
    SetIsDownloading bool
  | SetProgress number
  | SetError js_string
  | SetFileName js_string
  | SaveFile js_string "byte list"

fun apply_event :: "ui_state \<Rightarrow> event \<Rightarrow> ui_state" where
  "apply_event s (SetIsDownloading b) = s\<lparr>isDownloading := b\<rparr>"
| "apply_event s (SetProgress p) = s\<lparr>progress := p\<rparr>"
| "apply_event s (SetError m) = s\<lparr>error := m\<rparr>"
| "apply_event s (SetFileName n) = s\<lparr>fileName := n\<rparr>"
| "apply_event s (SaveFile n b) = s"

fun is_SaveFile :: "event \<Rightarrow> bool" where
  "is_SaveFile (SaveFile n b) = True"
| "is_SaveFile e = False"

fun is_SetProgress :: "event \<Rightarrow> bool" where
  "is_SetProgress (SetProgress p) = True"
| "is_SetProgress e = False"

fun is_SetError :: "event \<Rightarrow> bool" where
  "is_SetError (SetError m) = True"
| "is_SetError e = False"

subsection \<open>The read loop (lines 43 to 77)\<close>

record loop_state =
  currentFileName :: js_string
  chunks :: "byte list list"
  receivedLength :: number
  totalLength :: "number option"
  metadataReceived :: bool

text \<open>Lines 26 and 44 to 47; \<^verbatim>\<open>let totalLength;\<close> leaves it undefined (\<open>None\<close>).\<close>

definition loop_initial :: loop_state where
  "loop_initial =
     \<lparr>currentFileName = js ''download'', chunks = [], receivedLength = Num 0,
      totalLength = None, metadataReceived = False\<rparr>"

text \<open>Line 59, \<^verbatim>\<open>const [name, size] = metadata.split('|')\<close>: the first piece, and the
  second one, which is \<^verbatim>\<open>undefined\<close> (\<open>None\<close>) when the header has no bar.\<close>

definition header_fields :: "js_string \<Rightarrow> js_string \<times> js_string option" where
  "header_fields metadata =
     (let parts = split metadata bar
      in (hd parts, if 1 < length parts then Some (parts ! 1) else None))"

text \<open>Lines 53 to 72: the chunk \<open>v\<close> (the source's \<^verbatim>\<open>value\<close>) before and after the header
  was found. \<open>metadataEndIndex\<close> is an index into the decoded text; the source uses it on
  the bytes as well (\<^verbatim>\<open>value.slice(metadataEndIndex + 1)\<close>).\<close>

definition take_chunk :: "loop_state \<Rightarrow> byte list \<Rightarrow> loop_state \<times> event list" where
  "take_chunk st v =
     (if \<not> metadataReceived st then
        (case indexOf (text_decode v) newline of
           None \<Rightarrow> (st, [])
         | Some metadataEndIndex \<Rightarrow>
            (let metadata = take metadataEndIndex (text_decode v);
                 name = fst (header_fields metadata);
                 size = snd (header_fields metadata);
                 fname = (if name \<noteq> [] then name else currentFileName st)
             in (st\<lparr>currentFileName := fname,
                    totalLength := Some (parseInt size),
                    metadataReceived := True,
                    chunks := chunks st @ [drop (metadataEndIndex + 1) v],
                    receivedLength :=
                      dadd (receivedLength st)
                        (dsub (num_of_nat (length v))
                           (dadd (num_of_nat metadataEndIndex) (Num 1)))\<rparr>,
                 [SetFileName fname])))
      else
        (st\<lparr>chunks := chunks st @ [v],
            receivedLength := dadd (receivedLength st) (num_of_nat (length v))\<rparr>, []))"

text \<open>Lines 74 to 76: \<^verbatim>\<open>if (totalLength)\<close> fails for \<^verbatim>\<open>undefined\<close>, NaN and the zeros;
  otherwise \<^verbatim>\<open>(receivedLength / totalLength) * 100\<close> is set, the quotient rounded and then
  the product.\<close>

definition report_progress :: "loop_state \<Rightarrow> event list" where
  "report_progress st =
     (case totalLength st of
        None \<Rightarrow> []
      | Some t \<Rightarrow>
          if truthy t then [SetProgress (dmul (ddiv (receivedLength st) t) (Num 100))] else [])"

definition on_chunk :: "loop_state \<Rightarrow> byte list \<Rightarrow> loop_state \<times> event list" where
  "on_chunk st v =
     (fst (take_chunk st v), snd (take_chunk st v) @ report_progress (fst (take_chunk st v)))"

text \<open>The loop over the chunks the reader delivers before it ends.\<close>

fun read_loop :: "loop_state \<Rightarrow> byte list list \<Rightarrow> loop_state \<times> event list" where
  "read_loop st [] = (st, [])"
| "read_loop st (v # vs) =
     (fst (read_loop (fst (on_chunk st v)) vs),
      snd (on_chunk st v) @ snd (read_loop (fst (on_chunk st v)) vs))"

subsection \<open>\<^verbatim>\<open>handleDownload\<close> (lines 20 to 94)\<close>

definition fileExtension :: "download_type \<Rightarrow> js_string" where
  "fileExtension t = (if t = Audio then js ''.mp3'' else js ''.mp4'')"

text \<open>Line 85: the anchor's \<^verbatim>\<open>download\<close> attribute.\<close>

definition download_name :: "download_type \<Rightarrow> js_string \<Rightarrow> js_string" where
  "download_name t name = strip_extension name @ fileExtension t"

text \<open>The \<^verbatim>\<open>try\<close> block: its effects, and what it throws if it does.\<close>

definition try_block :: "download_type \<Rightarrow> fetch_result \<Rightarrow> event list \<times> thrown option" where
  "try_block t fr =
     (case fr of
        Rejected e \<Rightarrow> ([], Some e)
      | Resolved r \<Rightarrow>
          if \<not> ok r then
            (case response_text r of
               Inl e \<Rightarrow> ([], Some e)
             | Inr errorText \<Rightarrow>
                 ([], Some (Error (js ''Download failed: '' @ number_to_string (status r)
                                   @ js '' '' @ errorText))))
          else
            (case body r of
               None \<Rightarrow> ([], Some (Error (js ''Response body is null'')))
             | Some reader \<Rightarrow>
                 (case ending reader of
                    Some e \<Rightarrow> (snd (read_loop loop_initial (stream_chunks reader)), Some e)
                  | None \<Rightarrow>
                      (snd (read_loop loop_initial (stream_chunks reader))
                       @ [SaveFile
                            (download_name t
                               (currentFileName
                                  (fst (read_loop loop_initial (stream_chunks reader)))))
                            (concat
                               (chunks (fst (read_loop loop_initial (stream_chunks reader)))))],
                       None))))"

text \<open>Lines 21 to 24, the reset at the start of every attempt.\<close>

definition reset_events :: "event list" where
  "reset_events = [SetIsDownloading True, SetProgress (Num 0), SetError [], SetFileName []]"

text \<open>The \<^verbatim>\<open>catch\<close> and \<^verbatim>\<open>finally\<close> clauses (lines 89 to 93).\<close>

definition catch_finally :: "thrown option \<Rightarrow> event list" where
  "catch_finally thr =
     (case thr of None \<Rightarrow> [] | Some err \<Rightarrow> [SetError (message err)])
     @ [SetIsDownloading False]"

definition handleDownload :: "ui_state \<Rightarrow> fetch_result \<Rightarrow> event list" where
  "handleDownload s fr =
     reset_events @ fst (try_block (downloadType s) fr)
     @ catch_finally (snd (try_block (downloadType s) fr))"

text \<open>The component's state after the events.\<close>

definition run_events :: "ui_state \<Rightarrow> event list \<Rightarrow> ui_state" where
  "run_events s evs = foldl apply_event s evs"

subsection \<open>What the component shows of an attempt (lines 167 to 184)\<close>

text \<open>The two conditional blocks of the markup: the progress bar with the line
  \<^verbatim>\<open>Downloading: ...\<close> under \<^verbatim>\<open>isDownloading\<close>, and the alert under \<^verbatim>\<open>error\<close>. A string
  is truthy when it is not empty.\<close>

datatype widget = ProgressBar number | DownloadingLine js_string | ErrorAlert js_string

definition render :: "ui_state \<Rightarrow> widget list" where
  "render s =
     (if isDownloading s then
        [ProgressBar (progress s),
         DownloadingLine (if fileName s \<noteq> [] then fileName s else js ''Preparing download...'')]
      else [])
     @ (if error s \<noteq> [] then [ErrorAlert (error s)] else [])"

subsection \<open>When an attempt fails\<close>

text \<open>The ways into the \<^verbatim>\<open>catch\<close> clause: \<^verbatim>\<open>fetch\<close> rejects, the status is not a success
  (line 37), the response has no body (line 41), or a \<^verbatim>\<open>read()\<close> rejects.\<close>

definition failing :: "fetch_result \<Rightarrow> bool" where
  "failing fr =
     (case fr of
        Rejected e \<Rightarrow> True
      | Resolved r \<Rightarrow>
          \<not> ok r \<or> (case body r of None \<Rightarrow> True | Some reader \<Rightarrow> ending reader \<noteq> None))"

subsection \<open>Inputs of the examples\<close>

text \<open>ASCII text as bytes on the wire.\<close>

definition bytes :: "string \<Rightarrow> byte list" where
  "bytes s = map (\<lambda>c. of_nat (of_char c)) s"

definition idle :: ui_state where
  "idle = \<lparr>url = [], downloadType = Video, isDownloading = False, progress = Num 0,
            fileName = [], error = []\<rparr>"

text \<open>A response with status 200 whose body delivers the chunks \<open>cs\<close> and ends as \<open>e\<close>
  says.\<close>

definition success :: "byte list list \<Rightarrow> thrown option \<Rightarrow> response" where
  "success cs e =
     \<lparr>status = 200, response_text = Inr [], body = Some \<lparr>stream_chunks = cs, ending = e\<rparr>\<rparr>"



text \<open>The header \<^verbatim>\<open>e-acute|1\<close>, its line feed and the one payload byte \<^verbatim>\<open>A\<close>; in UTF-8 the
  name takes the two bytes C3 A9.\<close>

definition accented_chunk :: "byte list" where
  "accented_chunk = [0xC3, 0xA9, 0x7C, 0x31, 0x0A, 0x41]"

text \<open>The header \<^verbatim>\<open>e-acute|0\<close> and its line feed, with no payload after it.\<close>

definition accented_header_only :: "byte list" where
  "accented_header_only = [0xC3, 0xA9, 0x7C, 0x30, 0x0A]"

text \<open>Headers of ASCII characters, each with the first payload bytes in the same
  chunk.\<close>

definition movie_chunk :: "byte list" where
  "movie_chunk = bytes ''movie.webm|10\<newline>AAAA''"

definition zero_total_chunk :: "byte list" where
  "zero_total_chunk = bytes ''f|0\<newline>AAAA''"

definition song_chunk :: "byte list" where
  "song_chunk = bytes ''song.ogg|abc\<newline>AB''"

definition late_header_chunk :: "byte list" where
  "late_header_chunk = bytes ''bm|7\<newline>AAAA''"

definition rounding_chunk :: "byte list" where
  "rounding_chunk = bytes ''f|100\<newline>AAAAAAA''"

definition broken_stream :: fetch_result where
  "broken_stream =
     Resolved (success [bytes ''a.b|9\<newline>AAAA''] (Some (Error (js ''network error''))))"

subsection \<open>Quantities of the proofs\<close>

text \<open>What holds of the decoder's state between two bytes: while a sequence is pending,
  fewer bytes were seen than are needed, the code point read so far is bounded, the
  boundaries lie within 80 to BF, and the code point is positive unless the lower boundary
  still excludes 80 for the next byte.\<close>

definition utf8_inv :: "utf8_state \<Rightarrow> bool" where
  "utf8_inv st =
     (bytes_needed st = 0 \<or>
      (bytes_seen st < bytes_needed st \<and> bytes_needed st \<le> 3
       \<and> code_point st < 32 * 64 ^ bytes_seen st
       \<and> 0x80 \<le> lower_boundary st \<and> upper_boundary st \<le> 0xBF
       \<and> (0 < code_point st \<or> (0x80 < lower_boundary st \<and> bytes_seen st + 1 < bytes_needed st))))"

text \<open>A code point the handler emits on the byte \<open>b\<close>: it is bounded, and it is the line
  feed only if the byte is.\<close>

definition cp_from :: "nat \<Rightarrow> nat \<Rightarrow> bool" where
  "cp_from b cp = (cp < 8388608 \<and> (cp \<noteq> 10 \<or> b = 10))"

text \<open>The bytes of a pending sequence, and the UTF-16 length of a list of code points.\<close>

definition pending :: "utf8_state \<Rightarrow> nat" where
  "pending st = (if bytes_needed st = 0 then 0 else bytes_seen st + 1)"

definition units :: "nat list \<Rightarrow> nat" where
  "units cps = length (concat (map utf16_units cps))"

text \<open>The count of received bytes as the loop computes it: after the header chunk \<open>v\<close>
  with the line feed at index \<open>i\<close> of its text (line 67), and after further chunks
  (line 71).\<close>

definition header_count :: "byte list \<Rightarrow> nat \<Rightarrow> number" where
  "header_count v i =
     dadd (Num 0) (dsub (num_of_nat (length v)) (dadd (num_of_nat i) (Num 1)))"

fun count_after :: "number \<Rightarrow> byte list list \<Rightarrow> number" where
  "count_after r [] = r"
| "count_after r (v # vs) = count_after (dadd r (num_of_nat (length v))) vs"

text \<open>The value of line 75.\<close>

definition percent :: "number \<Rightarrow> number \<Rightarrow> number" where
  "percent r t = dmul (ddiv r t) (Num 100)"

section \<open>Lemmas\<close>

subsection \<open>Numbers\<close>

lemma pow2_step: "(2::rat) powi (k + 1) = 2 * 2 powi k"
  by (simp add: power_int_add)

lemma pow2_less_imp:
  assumes "(2::rat) powi x < 2 powi y"
  shows "x < y"
proof (rule ccontr)
  assume "\<not> x < y"
  then have "y \<le> x" by simp
  then have "(2::rat) powi y \<le> 2 powi x" by (rule power_int_increasing) simp
  with assms show False by simp
qed

lemma binade_bounds:
  "0 < a \<Longrightarrow> 2 powi binade a \<le> a \<and> a < 2 powi (binade a + 1)"
proof (induction a rule: binade.induct)
  case (1 a)
  show ?case
  proof (cases "2 \<le> a")
    case True
    define k where "k = binade (a / 2)"
    have b: "binade a = k + 1" using "1.prems" True by (simp add: binade.simps k_def)
    have "0 < a / 2" using "1.prems" by simp
    with "1.IH"(1) "1.prems" True
    have ih: "2 powi k \<le> a / 2" "a / 2 < 2 powi (k + 1)" by (simp_all add: k_def)
    have "2 * 2 powi k \<le> a" "a < 2 * 2 powi (k + 1)" using ih by linarith+
    then show ?thesis unfolding b pow2_step [of "k + 1"] by (simp only: pow2_step [of k])
  next
    case n2: False
    show ?thesis
    proof (cases "a < 1")
      case True
      define k where "k = binade (a * 2)"
      have b: "binade a = k - 1" using "1.prems" n2 True by (simp add: binade.simps k_def)
      have "0 < a * 2" using "1.prems" by simp
      with "1.IH"(2) "1.prems" n2 True
      have ih: "2 powi k \<le> a * 2" "a * 2 < 2 powi (k + 1)" by (simp_all add: k_def)
      have k1: "(2::rat) powi k = 2 * 2 powi (k - 1)" using pow2_step [of "k - 1"] by simp
      have k2: "(2::rat) powi (k + 1) = 2 * 2 powi k" by (rule pow2_step)
      have "2 powi (k - 1) \<le> a" using ih(1) k1 by linarith
      moreover have "a < 2 powi k" using ih(2) k2 by linarith
      ultimately show ?thesis unfolding b by simp
    next
      case False
      then have b: "binade a = 0" using "1.prems" n2 by (simp add: binade.simps)
      show ?thesis unfolding b using False n2 by simp
    qed
  qed
qed

lemma binade_unique:
  assumes "2 powi e \<le> a" and "a < 2 powi (e + 1)"
  shows "binade a = e"
proof -
  have "(0::rat) < 2 powi e" by simp
  with assms(1) have pos: "0 < a" by linarith
  from binade_bounds [OF pos] have b: "2 powi binade a \<le> a" "a < 2 powi (binade a + 1)" by simp_all
  have "(2::rat) powi binade a < 2 powi (e + 1)" using b(1) assms(2) by linarith
  then have 1: "binade a < e + 1" by (rule pow2_less_imp)
  have "(2::rat) powi e < 2 powi (binade a + 1)" using b(2) assms(1) by linarith
  then have 2: "e < binade a + 1" by (rule pow2_less_imp)
  from 1 2 show ?thesis by simp
qed

lemma round_half_even_near:
  assumes "of_int n - 1 / 2 < m" and "m < of_int n + 1 / 2"
  shows "round_half_even m = n"
proof -
  have "of_int (n - 1) \<le> m" using assms(1) by simp
  then have lo: "n - 1 \<le> \<lfloor>m\<rfloor>" by (simp only: le_floor_iff)
  have "m < of_int (n + 1)" using assms(2) by simp
  then have hi: "\<lfloor>m\<rfloor> < n + 1" by (simp only: floor_less_iff)
  from lo hi consider (eq) "\<lfloor>m\<rfloor> = n" | (less) "\<lfloor>m\<rfloor> = n - 1" by linarith
  then show ?thesis
  proof cases
    case eq
    then have "m - of_int \<lfloor>m\<rfloor> < 1 / 2" using assms(2) by simp
    then show ?thesis using eq by (simp add: round_half_even_def)
  next
    case less
    then have "1 / 2 < m - of_int \<lfloor>m\<rfloor>" using assms(1) by simp
    then show ?thesis using less by (simp add: round_half_even_def)
  qed
qed

text \<open>A rounding in the normal range, from the binade \<open>e\<close> of the value and the multiple
  \<open>n\<close> of the spacing that is nearest to it.\<close>

lemma fl_normal:
  assumes "2 powi e \<le> \<bar>x\<bar>" and "\<bar>x\<bar> < 2 powi (e + 1)" and "- 1022 \<le> e" and "e < 1023"
    and "of_int n - 1 / 2 < \<bar>x\<bar> / 2 powi (e - 52)" and "\<bar>x\<bar> / 2 powi (e - 52) < of_int n + 1 / 2"
  shows "fl x = Num (if x < 0 then - (of_int n * 2 powi (e - 52)) else of_int n * 2 powi (e - 52))"
proof -
  have b: "binade \<bar>x\<bar> = e" using assms(1,2) by (rule binade_unique)
  have r: "round_half_even (\<bar>x\<bar> / 2 powi (e - 52)) = n" using assms(5,6) by (rule round_half_even_near)
  have "(0::rat) < 2 powi e" by simp
  with assms(1) have "0 < \<bar>x\<bar>" by linarith
  then have x0: "x \<noteq> 0" by simp
  define u :: rat where "u = 2 powi (e - 52)"
  have u: "0 < u" by (simp add: u_def)
  have "(2::rat) powi e = u * 2 powi 52"
    unfolding u_def using power_int_add [of "2::rat" "e - 52" 52] by simp
  then have "u * 1 \<le> \<bar>x\<bar>" using assms(1) u by simp
  then have "1 \<le> \<bar>x\<bar> / u" using u by (simp add: pos_le_divide_eq)
  with assms(6) have "(1::rat) / 2 < of_int n" unfolding u_def by linarith
  then have n0: "n \<noteq> 0" by auto
  have m: "max e (- 1022) = e" using assms(3) by simp
  show ?thesis unfolding fl_def b m Let_def r using x0 n0 assms(4) by simp
qed

text \<open>Integers below \<open>2^53\<close> are doubles, and their sums and differences are exact.\<close>

lemma fl_of_int:
  assumes "n \<noteq> 0" and "\<bar>n\<bar> < 2 ^ 53"
  shows "fl (of_int n) = Num (of_int n)"
proof -
  define a :: rat where "a = \<bar>of_int n\<bar>"
  have ai: "a = of_int \<bar>n\<bar>" by (simp add: a_def)
  have "1 \<le> \<bar>n\<bar>" using assms(1) by simp
  then have a1: "1 \<le> a" unfolding ai by (metis of_int_1_le_iff)
  have "of_int \<bar>n\<bar> < (of_int (2 ^ 53) :: rat)" using assms(2) by (simp only: of_int_less_iff)
  then have a53: "a < 2 powi 53" unfolding ai by simp
  define e where "e = binade a"
  have "0 < a" using a1 by simp
  from binade_bounds [OF this] have b: "2 powi e \<le> a" "a < 2 powi (e + 1)" by (simp_all add: e_def)
  have "(2::rat) powi 0 < 2 powi (e + 1)" using a1 b(2) by simp
  then have e0: "0 \<le> e" using pow2_less_imp [of 0 "e + 1"] by simp
  have "(2::rat) powi e < 2 powi 53" using b(1) a53 by linarith
  then have e52: "e \<le> 52" using pow2_less_imp [of e 53] by simp
  define k where "k = nat (52 - e)"
  have "(2::rat) powi (e - 52 + int k) = 2 powi (e - 52) * 2 powi int k"
    by (rule power_int_add) simp
  moreover have "e - 52 + int k = 0" using e52 by (simp add: k_def)
  ultimately have u: "(2::rat) powi (e - 52) * 2 ^ k = 1" by simp
  have up: "(0::rat) < 2 powi (e - 52)" by simp
  define m where "m = \<bar>n\<bar> * 2 ^ k"
  have "a = a * (2 powi (e - 52) * 2 ^ k)" by (simp only: u mult_1_right)
  then have "a / 2 powi (e - 52) = a * 2 ^ k" using up by (simp add: field_simps)
  then have q: "a / 2 powi (e - 52) = of_int m" by (simp add: m_def ai)
  have bk: "of_int m * 2 powi (e - 52) = a"
  proof -
    have "of_int m * 2 powi (e - 52) = a * (2 powi (e - 52) * 2 ^ k)"
      by (simp add: m_def ai)
    then show ?thesis by (simp only: u mult_1_right)
  qed
  have "fl (of_int n) =
      Num (if (of_int n :: rat) < 0 then - (of_int m * 2 powi (e - 52))
           else of_int m * 2 powi (e - 52))"
  proof (rule fl_normal)
    show "2 powi e \<le> \<bar>of_int n :: rat\<bar>" using b(1) by (simp add: a_def)
    show "\<bar>of_int n :: rat\<bar> < 2 powi (e + 1)" using b(2) by (simp add: a_def)
    show "- 1022 \<le> e" using e0 by simp
    show "e < 1023" using e52 by simp
    show "of_int m - 1 / 2 < \<bar>of_int n :: rat\<bar> / 2 powi (e - 52)"
      using q by (simp add: a_def)
    show "\<bar>of_int n :: rat\<bar> / 2 powi (e - 52) < of_int m + 1 / 2"
      using q by (simp add: a_def)
  qed
  then show ?thesis unfolding bk by (simp add: a_def)
qed

lemma fl_of_nat: "n < 2 ^ 53 \<Longrightarrow> fl (of_nat n) = Num (of_nat n)"
proof (cases "n = 0")
  case True
  then show ?thesis by (simp add: fl_def)
next
  case False
  assume "n < 2 ^ 53"
  then have "int n < 2 ^ 53" by (metis of_nat_less_iff of_nat_numeral of_nat_power)
  with False have "fl (of_int (int n)) = Num (of_int (int n))"
    by (intro fl_of_int) simp_all
  then show ?thesis by simp
qed

lemma fl_numeral: "(numeral w :: int) < 2 ^ 53 \<Longrightarrow> fl (numeral w) = Num (numeral w)"
  using fl_of_int [of "numeral w"] by simp

lemma fl_one: "fl 1 = Num 1"
  using fl_of_int [of 1] by simp

lemma num_of_nat_exact: "n < 2 ^ 53 \<Longrightarrow> num_of_nat n = Num (of_nat n)"
  by (simp add: num_of_nat_def fl_of_nat)

lemma dadd_nat:
  assumes "a + b < 2 ^ 53"
  shows "dadd (Num (of_nat a)) (Num (of_nat b)) = Num (of_nat (a + b))"
proof (cases "a = 0 \<and> b = 0")
  case True
  then show ?thesis by (simp add: dadd_def signed_zero_def)
next
  case False
  then have "dadd (Num (of_nat a)) (Num (of_nat b)) = fl (of_nat (a + b))"
    by (auto simp: dadd_def)
  then show ?thesis using assms by (simp only: fl_of_nat)
qed

lemma dsub_nat:
  assumes "b \<le> a" and "a < 2 ^ 53"
  shows "dsub (Num (of_nat a)) (Num (of_nat b)) = Num (of_nat (a - b))"
proof (cases "b = 0")
  case True
  show ?thesis
  proof (cases "a = 0")
    case True
    with \<open>b = 0\<close> show ?thesis by (simp add: dsub_def dadd_def signed_zero_def)
  next
    case False
    with \<open>b = 0\<close> have "dsub (Num (of_nat a)) (Num (of_nat b)) = fl (of_nat a)"
      by (simp add: dsub_def dadd_def)
    then show ?thesis using assms(2) \<open>b = 0\<close> by (simp add: fl_of_nat)
  qed
next
  case False
  then have "dsub (Num (of_nat a)) (Num (of_nat b)) = fl (of_nat a - of_nat b)"
    by (simp add: dsub_def dadd_def)
  also have "(of_nat a - of_nat b :: rat) = of_nat (a - b)" using assms(1) by simp
  also have "fl (of_nat (a - b)) = Num (of_nat (a - b))"
    using assms(2) by (intro fl_of_nat) simp
  finally show ?thesis .
qed

lemma header_count_exact:
  assumes "Suc i \<le> length v" and "length v < 2 ^ 53"
  shows "header_count v i = Num (of_nat (length v - Suc i))"
proof -
  have i: "i < 2 ^ 53" "i + 1 < 2 ^ 53" using assms by simp_all
  have "dadd (num_of_nat i) (Num 1) = Num (of_nat (i + 1))"
    using dadd_nat [of i 1] i by (simp add: num_of_nat_exact)
  then have "dsub (num_of_nat (length v)) (dadd (num_of_nat i) (Num 1))
      = Num (of_nat (length v - Suc i))"
    using dsub_nat [of "i + 1" "length v"] assms by (simp add: num_of_nat_exact)
  moreover have "dadd (Num 0) (Num (of_nat (length v - Suc i))) = Num (of_nat (length v - Suc i))"
    using dadd_nat [of 0 "length v - Suc i"] assms(2) by simp
  ultimately show ?thesis by (simp add: header_count_def)
qed

lemma count_after_exact:
  "a + length (concat vs) < 2 ^ 53 \<Longrightarrow>
   count_after (Num (of_nat a)) vs = Num (of_nat (a + length (concat vs)))"
proof (induction vs arbitrary: a)
  case Nil
  then show ?case by simp
next
  case (Cons v vs)
  have "dadd (Num (of_nat a)) (num_of_nat (length v)) = Num (of_nat (a + length v))"
    using Cons.prems dadd_nat [of a "length v"] by (simp add: num_of_nat_exact)
  moreover have "count_after (Num (of_nat (a + length v))) vs
      = Num (of_nat (a + length v + length (concat vs)))"
    using Cons.prems by (intro Cons.IH) simp
  ultimately show ?case by (simp add: add.assoc)
qed

lemma ddiv_Num: "x \<noteq> 0 \<Longrightarrow> y \<noteq> 0 \<Longrightarrow> ddiv (Num x) (Num y) = fl (x / y)"
  by (simp add: ddiv_def)

lemma dmul_Num: "x \<noteq> 0 \<Longrightarrow> y \<noteq> 0 \<Longrightarrow> dmul (Num x) (Num y) = fl (x * y)"
  by (simp add: dmul_def)

text \<open>The value of line 75 from the two roundings.\<close>

lemma percent_eval:
  assumes "x \<noteq> 0" and "y \<noteq> 0" and "fl (x / y) = Num q" and "q \<noteq> 0" and "fl (q * 100) = Num p"
  shows "percent (Num x) (Num y) = Num p"
  using assms by (simp add: percent_def ddiv_Num dmul_Num)


subsection \<open>Strings\<close>

lemma js_Nil [simp]: "js [] = []"
  by (simp add: js_def)

lemma indexOf_None: "indexOf xs c = None \<longleftrightarrow> c \<notin> set xs"
  by (induction xs) (auto split: option.splits)

lemma indexOf_Some_less: "indexOf xs c = Some i \<Longrightarrow> i < length xs"
  by (induction xs arbitrary: i) (auto split: option.splits if_splits)

lemma indexOf_Some_nth: "indexOf xs c = Some i \<Longrightarrow> xs ! i = c \<and> c \<notin> set (take i xs)"
  by (induction xs arbitrary: i) (auto split: option.splits if_splits)

lemma indexOf_append: "indexOf xs c = Some k \<Longrightarrow> indexOf (xs @ ys) c = Some k"
  by (induction xs arbitrary: k) (auto split: option.splits if_splits)

lemma indexOf_take: "indexOf xs c = Some k \<Longrightarrow> indexOf (take (Suc k) xs) c = Some k"
  by (induction xs arbitrary: k) (auto split: option.splits if_splits)

subsection \<open>The decoded text is not longer than the bytes\<close>

text \<open>Every step of the decoder pays for the code units it emits with bytes it has
  consumed: the units emitted plus the bytes pending afterwards are at most the bytes
  pending before plus the byte read. So an index into the text of a chunk is below the
  length of the chunk, and \<^verbatim>\<open>value.length - (metadataEndIndex + 1)\<close> is never negative.\<close>

lemma length_utf16_units: "length (utf16_units cp) \<le> 2"
  by (simp add: utf16_units_def)

lemma units_simps [simp]: "units [] = 0" "units (c # cs) = length (utf16_units c) + units cs"
  "units (xs @ ys) = units xs + units ys"
  by (simp_all add: units_def)

lemma utf8_lead_units: "units (snd (utf8_lead b)) + pending (fst (utf8_lead b)) \<le> 1"
  by (simp add: utf8_lead_def pending_def utf8_initial_def utf16_units_def)

lemma utf8_handler_units:
  "units (snd (utf8_handler st b)) + pending (fst (utf8_handler st b)) \<le> pending st + 1"
proof (cases "bytes_needed st = 0")
  case True
  then show ?thesis using utf8_lead_units [of b] by (simp add: utf8_handler_def pending_def)
next
  case False
  then have p: "1 \<le> pending st" by (simp add: pending_def)
  show ?thesis
  proof (cases "b < lower_boundary st \<or> upper_boundary st < b")
    case True
    then have "utf8_handler st b = (fst (utf8_lead b), 0xFFFD # snd (utf8_lead b))"
      using False by (simp add: utf8_handler_def)
    then show ?thesis using utf8_lead_units [of b] p by (simp add: utf16_units_def)
  next
    case nb: False
    show ?thesis
    proof (cases "bytes_seen st + 1 \<noteq> bytes_needed st")
      case True
      then show ?thesis using False nb by (simp add: utf8_handler_def pending_def)
    next
      case c: False
      then have "utf8_handler st b = (utf8_initial, [code_point st * 64 + b mod 64])"
        using False nb by (simp add: utf8_handler_def)
      then show ?thesis using p length_utf16_units [of "code_point st * 64 + b mod 64"]
        by (simp add: pending_def utf8_initial_def)
    qed
  qed
qed

lemma utf8_run_units: "units (utf8_run st bs) \<le> pending st + length bs"
proof (induction bs arbitrary: st)
  case Nil
  then show ?case by (simp add: pending_def utf16_units_def)
next
  case (Cons b bs)
  have "units (utf8_run st (b # bs))
        = units (snd (utf8_handler st (unat b))) + units (utf8_run (fst (utf8_handler st (unat b))) bs)"
    by simp
  also have "\<dots> \<le> units (snd (utf8_handler st (unat b))) + (pending (fst (utf8_handler st (unat b))) + length bs)"
    using Cons.IH by simp
  also have "\<dots> \<le> pending st + 1 + length bs"
    using utf8_handler_units [of st "unat b"] by simp
  finally show ?case by simp
qed

lemma units_strip_bom: "units (strip_bom cps) \<le> units cps"
  by (cases cps) (simp_all add: strip_bom_def)

lemma length_text_decode: "length (text_decode v) \<le> length v"
proof -
  have "length (text_decode v) = units (strip_bom (utf8_run utf8_initial v))"
    by (simp add: text_decode_def units_def)
  also have "\<dots> \<le> units (utf8_run utf8_initial v)" by (rule units_strip_bom)
  also have "\<dots> \<le> pending utf8_initial + length v" by (rule utf8_run_units)
  finally show ?thesis by (simp add: pending_def utf8_initial_def)
qed

subsection \<open>A line feed in the text comes from a line-feed byte\<close>

text \<open>The cases of a byte that starts a sequence, as a rule for case analysis.\<close>

lemma utf8_lead_cases:
  obtains (ascii) "b \<le> 0x7F" "utf8_lead b = (utf8_initial, [b])"
    | (two) "0xC2 \<le> b" "b \<le> 0xDF"
        "utf8_lead b = (utf8_initial\<lparr>bytes_needed := 1, code_point := b mod 32\<rparr>, [])"
    | (three) "0xE0 \<le> b" "b \<le> 0xEF"
        "utf8_lead b =
          (utf8_initial\<lparr>lower_boundary := (if b = 0xE0 then 0xA0 else 0x80),
                      upper_boundary := (if b = 0xED then 0x9F else 0xBF),
                      bytes_needed := 2, code_point := b mod 16\<rparr>, [])"
    | (four) "0xF0 \<le> b" "b \<le> 0xF4"
        "utf8_lead b =
          (utf8_initial\<lparr>lower_boundary := (if b = 0xF0 then 0x90 else 0x80),
                      upper_boundary := (if b = 0xF4 then 0x8F else 0xBF),
                      bytes_needed := 3, code_point := b mod 8\<rparr>, [])"
    | (bad) "utf8_lead b = (utf8_initial, [0xFFFD])"
proof (cases "b \<le> 0x7F")
  case True
  then have "utf8_lead b = (utf8_initial, [b])"
    unfolding utf8_lead_def by (simp only: if_True)
  with True show ?thesis by (rule ascii)
next
  case n1: False
  show ?thesis
  proof (cases "0xC2 \<le> b \<and> b \<le> 0xDF")
    case True
    with n1 have "utf8_lead b = (utf8_initial\<lparr>bytes_needed := 1, code_point := b mod 32\<rparr>, [])"
      unfolding utf8_lead_def by (simp only: if_True if_False simp_thms)
    with True show ?thesis by (intro two) simp_all
  next
    case n2: False
    show ?thesis
    proof (cases "0xE0 \<le> b \<and> b \<le> 0xEF")
      case True
      with n1 n2 have "utf8_lead b =
          (utf8_initial\<lparr>lower_boundary := (if b = 0xE0 then 0xA0 else 0x80),
                      upper_boundary := (if b = 0xED then 0x9F else 0xBF),
                      bytes_needed := 2, code_point := b mod 16\<rparr>, [])"
        unfolding utf8_lead_def by (simp only: if_True if_False simp_thms)
      with True show ?thesis by (intro three) simp_all
    next
      case n3: False
      show ?thesis
      proof (cases "0xF0 \<le> b \<and> b \<le> 0xF4")
        case True
        with n1 n2 n3 have "utf8_lead b =
          (utf8_initial\<lparr>lower_boundary := (if b = 0xF0 then 0x90 else 0x80),
                      upper_boundary := (if b = 0xF4 then 0x8F else 0xBF),
                      bytes_needed := 3, code_point := b mod 8\<rparr>, [])"
          unfolding utf8_lead_def by (simp only: if_True if_False simp_thms)
        with True show ?thesis by (intro four) simp_all
      next
        case False
        with n1 n2 n3 have "utf8_lead b = (utf8_initial, [0xFFFD])"
          unfolding utf8_lead_def by (simp only: if_True if_False simp_thms)
        then show ?thesis by (rule bad)
      qed
    qed
  qed
qed

lemma mod_window:
  fixes b :: nat
  assumes "q * m \<le> b" and "b < q * m + m"
  shows "b mod m = b - q * m"
proof -
  have "b = m * q + (b - q * m)" using assms(1) by (simp add: mult.commute)
  then have "b mod m = (m * q + (b - q * m)) mod m" by simp
  also have "\<dots> = (b - q * m) mod m" by (rule mod_mult_self4)
  also have "\<dots> = b - q * m" using assms by (intro mod_less) linarith
  finally show ?thesis .
qed

lemma utf8_inv_initial: "utf8_inv utf8_initial"
  by (simp add: utf8_inv_def utf8_initial_def)

lemma utf8_inv_pendingI:
  assumes "0 < n" "n \<le> 3" "c < 32" "0x80 \<le> lo" "hi \<le> 0xBF" "0 < c \<or> (0x80 < lo \<and> 1 < n)"
  shows "utf8_inv (utf8_initial\<lparr>lower_boundary := lo, upper_boundary := hi,
                                bytes_needed := n, code_point := c\<rparr>)"
  using assms by (auto simp: utf8_inv_def utf8_initial_def)

lemma utf8_lead_inv: "utf8_inv (fst (utf8_lead b))"
proof (cases b rule: utf8_lead_cases)
  case ascii
  then show ?thesis by (simp add: utf8_inv_initial)
next
  case two
  define c where "c = b mod 32"
  from two(1,2) have "b mod 32 = b - 192" using mod_window [of 6 32 b] by simp
  with two(1,2) have "0 < c" "c < 32" by (simp_all add: c_def)
  then have "utf8_inv (utf8_initial\<lparr>lower_boundary := 0x80, upper_boundary := 0xBF,
      bytes_needed := 1, code_point := c\<rparr>)"
    by (intro utf8_inv_pendingI) simp_all
  then show ?thesis by (simp add: two(3) utf8_initial_def c_def)
next
  case three
  define c where "c = b mod 16"
  define lo :: nat where "lo = (if b = 0xE0 then 0xA0 else 0x80)"
  define hi :: nat where "hi = (if b = 0xED then 0x9F else 0xBF)"
  from three(1,2) have "b mod 16 = b - 224" using mod_window [of 14 16 b] by simp
  with three(1,2) have "0 < c \<or> 0x80 < lo" "c < 32" by (auto simp: c_def lo_def)
  moreover have "0x80 \<le> lo" "hi \<le> 0xBF" by (simp_all add: lo_def hi_def)
  ultimately have "utf8_inv (utf8_initial\<lparr>lower_boundary := lo, upper_boundary := hi,
      bytes_needed := 2, code_point := c\<rparr>)"
    by (intro utf8_inv_pendingI) simp_all
  then show ?thesis by (simp only: three(3) fst_conv c_def lo_def hi_def)
next
  case four
  define c where "c = b mod 8"
  define lo :: nat where "lo = (if b = 0xF0 then 0x90 else 0x80)"
  define hi :: nat where "hi = (if b = 0xF4 then 0x8F else 0xBF)"
  from four(1,2) have "b mod 8 = b - 240" using mod_window [of 30 8 b] by simp
  with four(1,2) have "0 < c \<or> 0x80 < lo" "c < 32" by (auto simp: c_def lo_def)
  moreover have "0x80 \<le> lo" "hi \<le> 0xBF" by (simp_all add: lo_def hi_def)
  ultimately have "utf8_inv (utf8_initial\<lparr>lower_boundary := lo, upper_boundary := hi,
      bytes_needed := 3, code_point := c\<rparr>)"
    by (intro utf8_inv_pendingI) simp_all
  then show ?thesis by (simp only: four(3) fst_conv c_def lo_def hi_def)
next
  case bad
  then show ?thesis by (simp add: utf8_inv_initial)
qed

lemma utf8_lead_out:
  assumes "cp \<in> set (snd (utf8_lead b))"
  shows "cp_from b cp"
proof (cases b rule: utf8_lead_cases)
  case ascii
  with assms have "cp = b" "b < 8388608" by simp_all
  then show ?thesis by (simp add: cp_from_def)
next
  case bad
  with assms have "cp = 0xFFFD" by simp
  then show ?thesis by (simp add: cp_from_def)
qed (use assms in simp_all)

lemma pow64: "n \<le> 2 \<Longrightarrow> (64::nat) ^ n \<le> 4096"
proof -
  assume "n \<le> 2"
  then have "(64::nat) ^ n \<le> 64 ^ 2" by (intro power_increasing) simp_all
  then show ?thesis by simp
qed

lemma utf8_handler_inv:
  assumes "utf8_inv st"
  shows "utf8_inv (fst (utf8_handler st b))"
proof (cases "bytes_needed st = 0 \<or> b < lower_boundary st \<or> upper_boundary st < b")
  case True
  then show ?thesis using utf8_lead_inv [of b] by (auto simp: utf8_handler_def)
next
  case False
  show ?thesis
  proof (cases "bytes_seen st + 1 \<noteq> bytes_needed st")
    case c: False
    then show ?thesis using False utf8_inv_initial by (simp add: utf8_handler_def)
  next
    case True
    from False assms have inv: "bytes_seen st < bytes_needed st" "bytes_needed st \<le> 3"
      "code_point st < 32 * 64 ^ bytes_seen st" "0x80 \<le> lower_boundary st"
      "upper_boundary st \<le> 0xBF"
      "0 < code_point st \<or> 0x80 < lower_boundary st"
      by (auto simp: utf8_inv_def)
    from False have rng: "lower_boundary st \<le> b" "b \<le> upper_boundary st" by auto
    have st': "fst (utf8_handler st b) = st\<lparr>lower_boundary := 0x80, upper_boundary := 0xBF,
            code_point := code_point st * 64 + b mod 64, bytes_seen := bytes_seen st + 1\<rparr>"
      using False True by (simp add: utf8_handler_def)
    have "code_point st + 1 \<le> 32 * 64 ^ bytes_seen st" using inv by simp
    then have "(code_point st + 1) * 64 \<le> 32 * 64 ^ bytes_seen st * 64" by simp
    moreover have "b mod 64 < 64" by simp
    ultimately have bound: "code_point st * 64 + b mod 64 < 32 * 64 ^ (bytes_seen st + 1)"
      by simp
    have pos: "0 < code_point st * 64 + b mod 64"
    proof (cases "0 < code_point st")
      case True
      then show ?thesis by simp
    next
      case z: False
      with inv have "0x80 < lower_boundary st" by simp
      with rng inv have "128 < b" "b \<le> 191" by simp_all
      then have "0 < b mod 64" using mod_window [of 2 64 b] by simp
      then show ?thesis by simp
    qed
    show ?thesis using inv True bound pos by (simp add: st' utf8_inv_def)
  qed
qed

lemma utf8_handler_out:
  assumes "utf8_inv st" and "cp \<in> set (snd (utf8_handler st b))"
  shows "cp_from b cp"
proof (cases "bytes_needed st = 0")
  case True
  then show ?thesis using assms utf8_lead_out by (simp add: utf8_handler_def)
next
  case nz: False
  show ?thesis
  proof (cases "b < lower_boundary st \<or> upper_boundary st < b")
    case True
    then have "cp = 0xFFFD \<or> cp \<in> set (snd (utf8_lead b))"
      using nz assms by (auto simp: utf8_handler_def)
    then show ?thesis using utf8_lead_out by (auto simp: cp_from_def)
  next
    case False
    then have eq: "bytes_seen st + 1 = bytes_needed st" "cp = code_point st * 64 + b mod 64"
      using nz assms by (auto simp: utf8_handler_def split: if_splits)
    from nz assms eq have inv: "bytes_needed st \<le> 3" "code_point st < 32 * 64 ^ bytes_seen st"
      "0 < code_point st"
      by (auto simp: utf8_inv_def)
    from eq inv have "bytes_seen st \<le> 2" by simp
    then have "(64::nat) ^ bytes_seen st \<le> 4096" by (rule pow64)
    with inv have "code_point st < 131072" by simp
    moreover have "b mod 64 < 64" by simp
    ultimately have "cp < 8388608" using eq by simp
    moreover have "64 \<le> cp" using eq inv by simp
    ultimately show ?thesis by (simp add: cp_from_def)
  qed
qed

lemma utf8_run_out:
  "utf8_inv st \<Longrightarrow> cp \<in> set (utf8_run st bs) \<Longrightarrow> cp < 8388608 \<and> (cp \<noteq> 10 \<or> 10 \<in> set bs)"
proof (induction bs arbitrary: st)
  case Nil
  then show ?case by (simp split: if_splits)
next
  case (Cons b bs)
  from Cons.prems(2) consider
    "cp \<in> set (snd (utf8_handler st (unat b)))" | "cp \<in> set (utf8_run (fst (utf8_handler st (unat b))) bs)"
    by auto
  then show ?case
  proof cases
    case 1
    with Cons.prems(1) have "cp_from (unat b) cp" by (rule utf8_handler_out)
    moreover have "unat b = 10 \<Longrightarrow> b = 10" by (simp add: word_unat_eq_iff)
    ultimately show ?thesis by (auto simp: cp_from_def)
  next
    case 2
    with Cons.IH [OF utf8_handler_inv [OF Cons.prems(1)]] show ?thesis by auto
  qed
qed

lemma of_nat16_eq_10:
  assumes "n < 65536" and "(of_nat n :: 16 word) = 10"
  shows "n = 10"
proof -
  from assms(2) have "unat (of_nat n :: 16 word) = unat (10 :: 16 word)" by simp
  then have "n mod 65536 = 10" by (simp add: unat_of_nat)
  with assms(1) show ?thesis by simp
qed

lemma utf16_units_newline:
  assumes "cp < 8388608" and "newline \<in> set (utf16_units cp)"
  shows "cp = 10"
proof (cases "cp < 0x10000")
  case True
  with assms have "(of_nat cp :: 16 word) = 10" by (simp add: utf16_units_def newline_def)
  with True show ?thesis by (intro of_nat16_eq_10) simp_all
next
  case False
  define A where "A = 0xD800 + (cp - 0x10000) div 0x400"
  define B where "B = 0xDC00 + (cp - 0x10000) mod 0x400"
  have "(cp - 0x10000) div 0x400 < 8192" using assms(1) by simp
  then have A: "A < 65536" "A \<noteq> 10" by (simp_all add: A_def)
  have "(cp - 0x10000) mod 0x400 < 0x400" by simp
  then have B: "B < 65536" "B \<noteq> 10" by (simp_all add: B_def)
  have "utf16_units cp = [of_nat A, of_nat B]"
    using False unfolding A_def B_def utf16_units_def by simp
  with assms(2) have "(of_nat A :: 16 word) = 10 \<or> (of_nat B :: 16 word) = 10"
    by (auto simp: newline_def)
  with A B of_nat16_eq_10 show ?thesis by blast
qed

lemma set_strip_bom: "set (strip_bom cps) \<subseteq> set cps"
  by (cases cps) (auto simp: strip_bom_def)

lemma text_decode_newline:
  assumes "newline \<in> set (text_decode v)"
  shows "10 \<in> set v"
proof -
  from assms obtain cp where cp: "cp \<in> set (strip_bom (utf8_run utf8_initial v))"
    and nl: "newline \<in> set (utf16_units cp)"
    by (auto simp: text_decode_def)
  from cp set_strip_bom have "cp \<in> set (utf8_run utf8_initial v)" by blast
  then have b: "cp < 8388608 \<and> (cp \<noteq> 10 \<or> 10 \<in> set v)"
    using utf8_inv_initial by (rule utf8_run_out [rotated])
  with nl have "cp = 10" using utf16_units_newline by blast
  with b show ?thesis by simp
qed

subsection \<open>The text of ASCII bytes\<close>

text \<open>Bytes below 80 decode to themselves, one code unit each; where the bytes up to the
  first line feed are such, the line feed has the same index in the text as in the
  bytes.\<close>

lemma utf8_handler_ascii:
  assumes "b \<le> 0x7F"
  shows "utf8_handler utf8_initial b = (utf8_initial, [b])"
proof -
  have "bytes_needed utf8_initial = 0" by (simp add: utf8_initial_def)
  then have "utf8_handler utf8_initial b = utf8_lead b" by (simp add: utf8_handler_def)
  also have "\<dots> = (utf8_initial, [b])"
    using assms unfolding utf8_lead_def by (simp only: if_True)
  finally show ?thesis .
qed

lemma unat_ascii: "(b :: byte) < 0x80 \<Longrightarrow> unat b \<le> 0x7F"
  by (simp add: word_less_nat_alt)

lemma utf8_run_ascii:
  "list_all (\<lambda>b. b < 0x80) as \<Longrightarrow>
   utf8_run utf8_initial (as @ rest) = map unat as @ utf8_run utf8_initial rest"
proof (induction as)
  case Nil
  then show ?case by simp
next
  case (Cons a as)
  then have "unat a \<le> 0x7F" by (simp add: unat_ascii)
  then have "utf8_handler utf8_initial (unat a) = (utf8_initial, [unat a])"
    by (rule utf8_handler_ascii)
  with Cons show ?case by simp
qed

lemma utf16_units_ascii: "(b :: byte) < 0x80 \<Longrightarrow> utf16_units (unat b) = [ucast b]"
proof -
  assume "b < 0x80"
  then have "unat b < 0x10000" using unat_ascii [of b] by simp
  then show ?thesis by (simp add: utf16_units_def)
qed

lemma text_decode_ascii:
  assumes "list_all (\<lambda>b. b < 0x80) as" and "as \<noteq> []"
  shows "text_decode (as @ rest) =
           map ucast as @ concat (map utf16_units (utf8_run utf8_initial rest))"
proof -
  from assms(2) obtain a as' where as: "as = a # as'" by (cases as) auto
  with assms(1) have "unat a \<le> 0x7F" by (simp add: unat_ascii)
  then have nb: "unat a \<noteq> 0xFEFF" by simp
  have "strip_bom (map unat as @ utf8_run utf8_initial rest)
        = map unat as @ utf8_run utf8_initial rest"
    using nb by (simp add: strip_bom_def as)
  moreover have "concat (map utf16_units (map unat as)) = map ucast as"
    using assms(1) by (induction as) (simp_all add: utf16_units_ascii)
  ultimately show ?thesis
    using utf8_run_ascii [OF assms(1), of rest] by (simp add: text_decode_def)
qed

lemma text_decode_all_ascii:
  assumes "list_all (\<lambda>b. b < 0x80) v"
  shows "text_decode v = map ucast v"
proof (cases "v = []")
  case True
  then show ?thesis by (simp add: text_decode_def strip_bom_def utf8_initial_def)
next
  case False
  with text_decode_ascii [OF assms, of "[]"] show ?thesis
    by (simp add: utf8_initial_def)
qed

lemma ucast_newline: "(ucast (b :: byte) :: code_unit) = newline \<longleftrightarrow> b = 10"
proof
  assume "(ucast b :: code_unit) = newline"
  then have "unat (ucast b :: code_unit) = 10" by (simp add: newline_def)
  moreover have "unat (ucast b :: code_unit) = take_bit 16 (unat b)"
    by (simp add: unsigned_ucast_eq)
  moreover have "unat b < 2 ^ 16"
    using unsigned_less [of b, where ?'a = nat] by simp
  ultimately have "unat b = 10" by (simp add: take_bit_nat_eq_self)
  then show "b = 10" by (simp add: word_unat_eq_iff)
next
  assume "b = 10"
  then show "(ucast b :: code_unit) = newline" by (simp add: newline_def)
qed

lemma indexOf_map_ucast: "indexOf (map ucast (v :: byte list)) newline = indexOf v 10"
  by (induction v) (simp_all add: ucast_newline)

lemma ascii_header_text:
  assumes "indexOf v 10 = Some k" and "list_all (\<lambda>b. b < 0x80) (take k v)"
  shows "indexOf (text_decode v) newline = Some k"
    and "take k (text_decode v) = map ucast (take k v)"
proof -
  from assms(1) have k: "k < length v" and nl: "v ! k = 10"
    using indexOf_Some_less indexOf_Some_nth by fastforce+
  let ?h = "take (Suc k) v"
  have h: "?h = take k v @ [10]" using k nl by (simp add: take_Suc_conv_app_nth)
  have asc: "list_all (\<lambda>b. b < 0x80) ?h" unfolding h using assms(2) by simp
  have ne: "?h \<noteq> []" unfolding h by simp
  have dec: "text_decode v =
      map ucast ?h @ concat (map utf16_units (utf8_run utf8_initial (drop (Suc k) v)))"
    using text_decode_ascii [OF asc ne, of "drop (Suc k) v"] by simp
  have "indexOf (map ucast ?h :: js_string) newline = Some k"
    using indexOf_take [OF assms(1)] by (simp only: indexOf_map_ucast)
  then show "indexOf (text_decode v) newline = Some k"
    unfolding dec by (rule indexOf_append)
  have "length (map ucast ?h :: js_string) = Suc k" using k by simp
  then have "take k (text_decode v) = take k (map ucast ?h)"
    unfolding dec by simp
  also have "\<dots> = map ucast (take k v)" by (simp add: take_map)
  finally show "take k (text_decode v) = map ucast (take k v)" .
qed

lemma ascii_header_eval:
  assumes "indexOf v 10 = Some k" and "list_all (\<lambda>b. b < 0x80) (take k v)"
    and "header_fields (map ucast (take k v)) = (name, sz)"
  shows "indexOf (text_decode v) newline = Some k"
    and "fst (header_fields (take k (text_decode v))) = name"
    and "snd (header_fields (take k (text_decode v))) = sz"
  using ascii_header_text [OF assms(1,2)] assms(3) by simp_all

subsection \<open>The read loop before the header\<close>

lemma take_chunk_no_newline:
  assumes "10 \<notin> set v" and "\<not> metadataReceived st"
  shows "take_chunk st v = (st, [])"
proof -
  from assms(1) have "newline \<notin> set (text_decode v)" using text_decode_newline by blast
  then have "indexOf (text_decode v) newline = None" by (simp add: indexOf_None)
  with assms(2) show ?thesis by (simp add: take_chunk_def)
qed

lemma on_chunk_no_newline:
  assumes "10 \<notin> set v"
  shows "on_chunk loop_initial v = (loop_initial, [])"
proof -
  have "take_chunk loop_initial v = (loop_initial, [])"
    using assms by (intro take_chunk_no_newline) (simp_all add: loop_initial_def)
  moreover have "report_progress loop_initial = []"
    by (simp add: report_progress_def loop_initial_def)
  ultimately show ?thesis by (simp add: on_chunk_def)
qed

lemma read_loop_skip:
  "list_all (\<lambda>c. 10 \<notin> set c) pre \<Longrightarrow>
   read_loop loop_initial (pre @ vs) = read_loop loop_initial vs"
  by (induction pre) (simp_all add: on_chunk_no_newline)

subsection \<open>The read loop after the header\<close>

lemma on_chunk_streaming:
  assumes "metadataReceived st"
  shows "fst (on_chunk st v) =
           st\<lparr>chunks := chunks st @ [v],
              receivedLength := dadd (receivedLength st) (num_of_nat (length v))\<rparr>"
    and "snd (on_chunk st v) =
           report_progress (st\<lparr>chunks := chunks st @ [v],
              receivedLength := dadd (receivedLength st) (num_of_nat (length v))\<rparr>)"
  using assms by (simp_all add: on_chunk_def take_chunk_def)

lemma report_progress_total:
  "totalLength st' = totalLength st \<Longrightarrow> report_progress st = [] \<Longrightarrow> report_progress st' = []"
  by (auto simp: report_progress_def split: option.splits if_splits)

lemma read_loop_streaming_state:
  "metadataReceived st \<Longrightarrow>
   fst (read_loop st vs) =
     st\<lparr>chunks := chunks st @ vs,
        receivedLength := count_after (receivedLength st) vs\<rparr>"
proof (induction vs arbitrary: st)
  case Nil
  then show ?case by simp
next
  case (Cons v vs)
  let ?st' = "fst (on_chunk st v)"
  have st': "?st' = st\<lparr>chunks := chunks st @ [v],
      receivedLength := dadd (receivedLength st) (num_of_nat (length v))\<rparr>"
    using Cons.prems by (rule on_chunk_streaming)
  then have "metadataReceived ?st'" using Cons.prems by simp
  from Cons.IH [OF this] show ?case by (simp add: st')
qed

lemma read_loop_streaming_silent:
  assumes "metadataReceived st" and "report_progress st = []"
  shows "snd (read_loop st vs) = []"
  using assms
proof (induction vs arbitrary: st)
  case Nil
  then show ?case by simp
next
  case (Cons v vs)
  let ?st' = "fst (on_chunk st v)"
  have st': "?st' = st\<lparr>chunks := chunks st @ [v],
      receivedLength := dadd (receivedLength st) (num_of_nat (length v))\<rparr>"
    using Cons.prems(1) by (rule on_chunk_streaming)
  have rp: "report_progress ?st' = []"
    unfolding st' by (rule report_progress_total [of _ st]) (simp_all add: Cons.prems(2))
  have "snd (on_chunk st v) = []"
    using on_chunk_streaming(2) [OF Cons.prems(1), of v] rp unfolding st' by simp
  moreover have "snd (read_loop ?st' vs) = []"
    using Cons.prems(1) rp by (intro Cons.IH) (simp_all add: st')
  ultimately show ?case by simp
qed

lemma read_loop_streaming_progress:
  assumes "metadataReceived st" and "totalLength st = Some t" and "truthy t"
  shows "snd (read_loop st vs) =
     map (\<lambda>k. SetProgress (percent (receivedLength (fst (read_loop st (take (Suc k) vs)))) t))
       [0..<length vs]"
  using assms
proof (induction vs arbitrary: st)
  case Nil
  then show ?case by simp
next
  case (Cons v vs)
  let ?st' = "fst (on_chunk st v)"
  have st': "?st' = st\<lparr>chunks := chunks st @ [v],
      receivedLength := dadd (receivedLength st) (num_of_nat (length v))\<rparr>"
    using Cons.prems(1) by (rule on_chunk_streaming)
  have ev: "snd (on_chunk st v) = [SetProgress (percent (receivedLength ?st') t)]"
    using on_chunk_streaming(2) [OF Cons.prems(1), of v] Cons.prems(2,3) unfolding st'
    by (simp add: report_progress_def percent_def)
  have "snd (read_loop ?st' vs) =
     map (\<lambda>k. SetProgress (percent (receivedLength (fst (read_loop ?st' (take (Suc k) vs)))) t))
       [0..<length vs]"
    using Cons.prems by (intro Cons.IH) (simp_all add: st')
  then have tl: "snd (read_loop ?st' vs) =
     map (\<lambda>k. SetProgress (percent (receivedLength (fst (read_loop st (take (Suc k) (v # vs))))) t))
       [Suc 0..<Suc (length vs)]"
    by (simp add: map_upt_Suc del: upt_Suc flip: map_Suc_upt)
  have "[0..<length (v # vs)] = 0 # [Suc 0..<Suc (length vs)]"
    by (simp add: upt_conv_Cons del: upt_Suc)
  then show ?case using ev tl by (simp del: upt_Suc)
qed

lemma on_chunk_events: "list_all (\<lambda>e. \<not> is_SaveFile e \<and> \<not> is_SetError e) (snd (on_chunk st v))"
  by (simp add: on_chunk_def take_chunk_def report_progress_def Let_def
      split: option.splits)

lemma read_loop_events:
  "list_all (\<lambda>e. \<not> is_SaveFile e \<and> \<not> is_SetError e) (snd (read_loop st vs))"
  by (induction vs arbitrary: st) (simp_all add: on_chunk_events)

subsection \<open>The read loop from the header chunk on\<close>

text \<open>The state and the events of the loop on a stream whose first chunk holds the line
  feed, at index \<open>i\<close> of its text.\<close>

lemma take_chunk_header:
  assumes "indexOf (text_decode v) newline = Some i"
  shows "take_chunk loop_initial v =
    (\<lparr>currentFileName =
        (if fst (header_fields (take i (text_decode v))) \<noteq> []
         then fst (header_fields (take i (text_decode v))) else js ''download''),
      chunks = [drop (Suc i) v],
      receivedLength = header_count v i,
      totalLength = Some (parseInt (snd (header_fields (take i (text_decode v))))),
      metadataReceived = True\<rparr>,
     [SetFileName
        (if fst (header_fields (take i (text_decode v))) \<noteq> []
         then fst (header_fields (take i (text_decode v))) else js ''download'')])"
  using assms by (simp add: take_chunk_def loop_initial_def Let_def header_count_def)

lemma read_loop_header_state:
  assumes "indexOf (text_decode v) newline = Some i"
  shows "fst (read_loop loop_initial (v # vs)) =
    \<lparr>currentFileName =
        (if fst (header_fields (take i (text_decode v))) = [] then js ''download''
         else fst (header_fields (take i (text_decode v)))),
      chunks = drop (Suc i) v # vs,
      receivedLength = count_after (header_count v i) vs,
      totalLength = Some (parseInt (snd (header_fields (take i (text_decode v))))),
      metadataReceived = True\<rparr>"
proof -
  let ?st = "fst (on_chunk loop_initial v)"
  have st: "?st = fst (take_chunk loop_initial v)" by (simp add: on_chunk_def)
  have m: "metadataReceived ?st"
    unfolding st take_chunk_header [OF assms] by simp
  have "fst (read_loop loop_initial (v # vs)) = fst (read_loop ?st vs)" by simp
  also have "\<dots> = ?st\<lparr>chunks := chunks ?st @ vs,
        receivedLength := count_after (receivedLength ?st) vs\<rparr>"
    using m by (rule read_loop_streaming_state)
  finally show ?thesis
    unfolding st take_chunk_header [OF assms] by simp
qed

lemma read_loop_header_silent:
  assumes "indexOf (text_decode v) newline = Some i"
    and "\<not> truthy (parseInt (snd (header_fields (take i (text_decode v)))))"
  shows "snd (read_loop loop_initial (v # vs)) =
    [SetFileName
        (if fst (header_fields (take i (text_decode v))) = [] then js ''download''
         else fst (header_fields (take i (text_decode v))))]"
proof -
  let ?st = "fst (on_chunk loop_initial v)"
  have st: "?st = fst (take_chunk loop_initial v)" by (simp add: on_chunk_def)
  have m: "metadataReceived ?st"
    unfolding st take_chunk_header [OF assms(1)] by simp
  have rp: "report_progress ?st = []"
    unfolding st take_chunk_header [OF assms(1)] using assms(2)
    by (simp add: report_progress_def)
  have "snd (read_loop ?st vs) = []" using m rp by (rule read_loop_streaming_silent)
  moreover have "snd (on_chunk loop_initial v) = snd (take_chunk loop_initial v)"
    using rp by (simp add: on_chunk_def)
  ultimately show ?thesis
    by (simp add: take_chunk_header [OF assms(1)])
qed

lemma read_loop_header_progress:
  assumes "indexOf (text_decode v) newline = Some i"
    and "truthy (parseInt (snd (header_fields (take i (text_decode v)))))"
  shows "snd (read_loop loop_initial (v # vs)) =
    SetFileName
        (if fst (header_fields (take i (text_decode v))) = [] then js ''download''
         else fst (header_fields (take i (text_decode v))))
    # map (\<lambda>k. SetProgress
               (percent (receivedLength (fst (read_loop loop_initial (v # take k vs))))
                  (parseInt (snd (header_fields (take i (text_decode v)))))))
        [0..<Suc (length vs)]"
proof -
  let ?t = "parseInt (snd (header_fields (take i (text_decode v))))"
  let ?st = "fst (on_chunk loop_initial v)"
  have st: "?st = fst (take_chunk loop_initial v)" by (simp add: on_chunk_def)
  have m: "metadataReceived ?st" and tl: "totalLength ?st = Some ?t"
    unfolding st take_chunk_header [OF assms(1)] by simp_all
  have rp: "report_progress ?st = [SetProgress (percent (receivedLength ?st) ?t)]"
    using tl assms(2) by (simp add: report_progress_def percent_def)
  have first: "snd (on_chunk loop_initial v) =
    [SetFileName
        (if fst (header_fields (take i (text_decode v))) = [] then js ''download''
         else fst (header_fields (take i (text_decode v)))),
     SetProgress (percent (receivedLength ?st) ?t)]"
    using rp unfolding st by (simp add: on_chunk_def take_chunk_header [OF assms(1)])
  have later: "snd (read_loop ?st vs) =
     map (\<lambda>k. SetProgress (percent (receivedLength (fst (read_loop ?st (take (Suc k) vs)))) ?t))
       [0..<length vs]"
    using m tl assms(2) by (rule read_loop_streaming_progress)
  have shift: "map (\<lambda>k. SetProgress
          (percent (receivedLength (fst (read_loop loop_initial (v # take k vs)))) ?t))
        [Suc 0..<Suc (length vs)]
      = map (\<lambda>k. SetProgress (percent (receivedLength (fst (read_loop ?st (take (Suc k) vs)))) ?t))
       [0..<length vs]"
    by (simp add: map_upt_Suc del: upt_Suc flip: map_Suc_upt)
  have "[0..<Suc (length vs)] = 0 # [Suc 0..<Suc (length vs)]"
    by (simp add: upt_conv_Cons del: upt_Suc)
  then have "map (\<lambda>k. SetProgress
          (percent (receivedLength (fst (read_loop loop_initial (v # take k vs)))) ?t))
        [0..<Suc (length vs)]
     = SetProgress (percent (receivedLength ?st) ?t) # snd (read_loop ?st vs)"
    using later shift by (simp del: upt_Suc)
  then show ?thesis using first by (simp del: upt_Suc)
qed

text \<open>The same with the count written out, and the count as an integer while it is
  below \<open>2^53\<close>.\<close>

lemma read_loop_header_values:
  assumes "indexOf (text_decode v) newline = Some i"
    and "truthy (parseInt (snd (header_fields (take i (text_decode v)))))"
  shows "snd (read_loop loop_initial (v # vs)) =
    SetFileName
        (if fst (header_fields (take i (text_decode v))) = [] then js ''download''
         else fst (header_fields (take i (text_decode v))))
    # map (\<lambda>k. SetProgress
               (percent (count_after (header_count v i) (take k vs))
                  (parseInt (snd (header_fields (take i (text_decode v)))))))
        [0..<Suc (length vs)]"
  unfolding read_loop_header_progress [OF assms] read_loop_header_state [OF assms(1)]
  by simp

lemma count_value:
  assumes "length v = n" and "length (concat ws) = m" and "Suc i \<le> n" and "n + m < 2 ^ 53"
  shows "count_after (header_count v i) ws = Num (of_nat (n - Suc i + m))"
proof -
  have "header_count v i = Num (of_nat (n - Suc i))"
    using assms by (intro header_count_exact [of i v, unfolded assms(1)]) simp_all
  moreover have "count_after (Num (of_nat (n - Suc i))) ws
      = Num (of_nat (n - Suc i + length (concat ws)))"
    using assms by (intro count_after_exact) simp
  ultimately show ?thesis using assms(2) by simp
qed

text \<open>While the count stays below \<open>2^53\<close> it is an integer and never decreases.\<close>

lemma received_nondecreasing:
  assumes "receivedLength st = Num (of_nat a)" and "a + length v < 2 ^ 53"
  shows "\<exists>b. receivedLength (fst (on_chunk st v)) = Num (of_nat b) \<and> a \<le> b"
proof (cases "metadataReceived st")
  case True
  have "dadd (Num (of_nat a)) (num_of_nat (length v)) = Num (of_nat (a + length v))"
    using assms(2) dadd_nat [of a "length v"] by (simp add: num_of_nat_exact)
  then have "receivedLength (fst (on_chunk st v)) = Num (of_nat (a + length v))"
    using on_chunk_streaming(1) [OF True, of v] assms(1) by simp
  then show ?thesis by (intro exI [of _ "a + length v"]) simp
next
  case False
  show ?thesis
  proof (cases "indexOf (text_decode v) newline")
    case None
    with False assms(1) show ?thesis by (simp add: on_chunk_def take_chunk_def)
  next
    case (Some i)
    then have "i < length (text_decode v)" by (rule indexOf_Some_less)
    with length_text_decode [of v] have i: "Suc i \<le> length v" by simp
    have h: "dadd (Num 0) (dsub (num_of_nat (length v)) (dadd (num_of_nat i) (Num 1)))
        = Num (of_nat (length v - Suc i))"
      using header_count_exact [OF i] assms(2) by (simp add: header_count_def)
    have z: "dadd (Num 0) x = x" if "x = Num (of_nat n)" "n < 2 ^ 53" for x n
      using that dadd_nat [of 0 n] by simp
    have "dsub (num_of_nat (length v)) (dadd (num_of_nat i) (Num 1))
        = Num (of_nat (length v - Suc i))"
    proof -
      have i2: "i < 2 ^ 53" "i + 1 < 2 ^ 53" "length v < 2 ^ 53" using i assms(2) by simp_all
      have "dadd (num_of_nat i) (Num 1) = Num (of_nat (i + 1))"
        using dadd_nat [of i 1] i2 by (simp add: num_of_nat_exact)
      then show ?thesis using dsub_nat [of "i + 1" "length v"] i i2 by (simp add: num_of_nat_exact)
    qed
    moreover have "dadd (Num (of_nat a)) (Num (of_nat (length v - Suc i)))
        = Num (of_nat (a + (length v - Suc i)))"
      using assms(2) by (intro dadd_nat) simp
    ultimately have "receivedLength (fst (on_chunk st v)) = Num (of_nat (a + (length v - Suc i)))"
      using False Some assms(1) by (simp add: on_chunk_def take_chunk_def Let_def)
    then show ?thesis by (intro exI [of _ "a + (length v - Suc i)"]) simp
  qed
qed

text \<open>With a header of one-byte characters the index of the line feed in the text is its
  index in the bytes, and the loop buffers the bytes after the line feed and every later
  chunk; their number is its count, as long as that is below \<open>2^53\<close>.\<close>

lemma ascii_header_buffer:
  assumes "indexOf v 10 = Some k" and "list_all (\<lambda>b. b < 0x80) (take k v)"
  shows "concat (chunks (fst (read_loop loop_initial (v # vs)))) = drop (Suc k) v @ concat vs"
  using read_loop_header_state [OF ascii_header_text(1) [OF assms], of vs] by simp

lemma ascii_header_count:
  assumes "indexOf v 10 = Some k" and "list_all (\<lambda>b. b < 0x80) (take k v)"
    and "length v + length (concat vs) < 2 ^ 53"
  shows "receivedLength (fst (read_loop loop_initial (v # vs)))
         = Num (of_nat (length (drop (Suc k) v @ concat vs)))"
proof -
  from assms(1) have k: "Suc k \<le> length v" using indexOf_Some_less by fastforce
  have h: "header_count v k = Num (of_nat (length v - Suc k))"
    using k assms(3) by (intro header_count_exact) simp_all
  have "count_after (Num (of_nat (length v - Suc k))) vs
      = Num (of_nat (length v - Suc k + length (concat vs)))"
    using assms(3) by (intro count_after_exact) simp
  then show ?thesis
    using read_loop_header_state [OF ascii_header_text(1) [OF assms(1,2)], of vs] h by simp
qed

subsection \<open>How an attempt ends\<close>

lemma handleDownload_complete:
  assumes "ok r" and "body r = Some \<lparr>stream_chunks = cs, ending = None\<rparr>"
  shows "handleDownload s (Resolved r) =
     reset_events @ snd (read_loop loop_initial cs)
     @ [SaveFile (download_name (downloadType s) (currentFileName (fst (read_loop loop_initial cs))))
          (concat (chunks (fst (read_loop loop_initial cs)))),
        SetIsDownloading False]"
  using assms by (simp add: handleDownload_def try_block_def catch_finally_def)

lemma handleDownload_failed_read:
  assumes "ok r" and "body r = Some \<lparr>stream_chunks = cs, ending = Some e\<rparr>"
  shows "handleDownload s (Resolved r) =
     reset_events @ snd (read_loop loop_initial cs) @ [SetError (message e), SetIsDownloading False]"
  using assms by (simp add: handleDownload_def try_block_def catch_finally_def)

lemma try_block_failing:
  assumes "failing fr"
  shows "\<exists>err. snd (try_block t fr) = Some err \<and> \<not> list_ex is_SaveFile (fst (try_block t fr))"
proof (cases fr)
  case (Rejected e)
  then show ?thesis by (simp add: try_block_def)
next
  case (Resolved r)
  show ?thesis
  proof (cases "ok r")
    case False
    then show ?thesis using Resolved by (simp add: try_block_def split: sum.splits)
  next
    case True
    show ?thesis
    proof (cases "body r")
      case None
      then show ?thesis using Resolved True by (simp add: try_block_def)
    next
      case (Some reader)
      with assms Resolved True obtain e where e: "ending reader = Some e"
        by (auto simp: failing_def)
      have "\<not> list_ex is_SaveFile (snd (read_loop loop_initial (stream_chunks reader)))"
        using read_loop_events [of loop_initial "stream_chunks reader"]
        by (auto simp: list_all_iff list_ex_iff)
      then show ?thesis using Resolved True Some e by (simp add: try_block_def)
    qed
  qed
qed

lemma run_events_failed:
  "run_events s (evs @ [SetError m, SetIsDownloading False])
   = (run_events s evs)\<lparr>error := m, isDownloading := False\<rparr>"
  by (simp add: run_events_def)

lemma try_block_same_loop:
  assumes "read_loop loop_initial cs = read_loop loop_initial cs'"
  shows "try_block t (Resolved (r\<lparr>body := Some \<lparr>stream_chunks = cs, ending = e\<rparr>\<rparr>))
      = try_block t (Resolved (r\<lparr>body := Some \<lparr>stream_chunks = cs', ending = e\<rparr>\<rparr>))"
  by (simp add: try_block_def ok_def assms split: option.splits sum.splits)

lemma handleDownload_same_loop:
  assumes "read_loop loop_initial cs = read_loop loop_initial cs'"
  shows "handleDownload s (Resolved (r\<lparr>body := Some \<lparr>stream_chunks = cs, ending = e\<rparr>\<rparr>))
        = handleDownload s (Resolved (r\<lparr>body := Some \<lparr>stream_chunks = cs', ending = e\<rparr>\<rparr>))"
  by (simp add: handleDownload_def try_block_same_loop [OF assms])

lemma ascii_header_blob:
  assumes "ok r" and "body r = Some \<lparr>stream_chunks = v # vs, ending = None\<rparr>"
    and "indexOf v 10 = Some k" and "list_all (\<lambda>b. b < 0x80) (take k v)"
  shows "\<exists>evs name. handleDownload s (Resolved r) =
           reset_events @ evs @ [SaveFile name (drop (Suc k) v @ concat vs), SetIsDownloading False]"
  unfolding handleDownload_complete [OF assms(1,2)] ascii_header_buffer [OF assms(3,4)]
  by blast

subsection \<open>The derived file name\<close>

lemma strip_extension_no_dot: "dot \<notin> set name \<Longrightarrow> strip_extension name = name"
  by (induction name) auto

lemma strip_extension_unchanged:
  assumes "\<forall>base ext. name = base @ dot # ext \<longrightarrow> ext = [] \<or> dot \<in> set ext \<or> slash \<in> set ext"
  shows "strip_extension name = name"
  using assms
proof (induction name)
  case Nil
  then show ?case by simp
next
  case (Cons c cs)
  have tail: "\<forall>base ext. cs = base @ dot # ext \<longrightarrow> ext = [] \<or> dot \<in> set ext \<or> slash \<in> set ext"
  proof (intro allI impI)
    fix base ext
    assume "cs = base @ dot # ext"
    then have "c # cs = (c # base) @ dot # ext" by simp
    with Cons.prems show "ext = [] \<or> dot \<in> set ext \<or> slash \<in> set ext" by blast
  qed
  have "\<not> (c = dot \<and> cs \<noteq> [] \<and> list_all (\<lambda>d. d \<noteq> slash \<and> d \<noteq> dot) cs)"
  proof
    assume m: "c = dot \<and> cs \<noteq> [] \<and> list_all (\<lambda>d. d \<noteq> slash \<and> d \<noteq> dot) cs"
    then have "c # cs = [] @ dot # cs" by simp
    with Cons.prems have "cs = [] \<or> dot \<in> set cs \<or> slash \<in> set cs" by blast
    with m show False by (auto simp: list_all_iff)
  qed
  with Cons.IH [OF tail] show ?case by auto
qed

lemma no_dot_no_suffix:
  assumes "dot \<notin> set name"
  shows "\<forall>base ext. name = base @ dot # ext \<longrightarrow> ext = [] \<or> dot \<in> set ext \<or> slash \<in> set ext"
  using assms by auto

lemma strip_extension_suffix:
  "ext \<noteq> [] \<Longrightarrow> dot \<notin> set ext \<Longrightarrow> slash \<notin> set ext \<Longrightarrow>
   strip_extension (base @ dot # ext) = base"
proof (induction base)
  case Nil
  then show ?case by (auto simp: list_all_iff)
next
  case (Cons c base)
  then show ?case by (auto simp: list_all_iff)
qed

subsection \<open>The digits of a status code\<close>






subsection \<open>The examples, evaluated\<close>

lemmas decode_eval = text_decode_def utf8_handler_def utf8_lead_def utf8_initial_def
  strip_bom_def utf16_units_def

lemma ok_success: "ok (success cs e)"
  by (simp add: ok_def success_def)

lemma body_success: "body (success cs e) = Some \<lparr>stream_chunks = cs, ending = e\<rparr>"
  by (simp add: success_def)

text \<open>The values of line 75 that the examples meet, each from its two roundings.\<close>

lemma percent_2_1: "percent (Num 2) (Num 1) = Num 200"
  by (rule percent_eval [where q = 2]) (simp_all add: fl_numeral)

lemma percent_10_10: "percent (Num 10) (Num 10) = Num 100"
  by (rule percent_eval [where q = 1]) (simp_all add: fl_numeral fl_one)

lemma percent_4_10: "percent (Num 4) (Num 10) = Num 40"
proof (rule percent_eval [where q = "3602879701896397 / 9007199254740992"])
  show "fl (4 / 10) = Num (3602879701896397 / 9007199254740992)"
    using fl_normal [of "- 2" "4 / 10" 7205759403792794] by simp
  show "fl (3602879701896397 / 9007199254740992 * 100) = Num 40"
    using fl_normal [of 5 "3602879701896397 / 9007199254740992 * 100" 5629499534213120] by simp
qed simp_all

lemma percent_12_10: "percent (Num 12) (Num 10) = Num 120"
proof (rule percent_eval [where q = "5404319552844595 / 4503599627370496"])
  show "fl (12 / 10) = Num (5404319552844595 / 4503599627370496)"
    using fl_normal [of 0 "12 / 10" 5404319552844595] by simp
  show "fl (5404319552844595 / 4503599627370496 * 100) = Num 120"
    using fl_normal [of 6 "5404319552844595 / 4503599627370496 * 100" 8444249301319680] by simp
qed simp_all

lemma percent_7_100: "percent (Num 7) (Num 100) = Num (7881299347898369 / 1125899906842624)"
proof (rule percent_eval [where q = "1261007895663739 / 18014398509481984"])
  show "fl (7 / 100) = Num (1261007895663739 / 18014398509481984)"
    using fl_normal [of "- 4" "7 / 100" 5044031582654956] by simp
  show "fl (1261007895663739 / 18014398509481984 * 100)
        = Num (7881299347898369 / 1125899906842624)"
    using fl_normal [of 2 "1261007895663739 / 18014398509481984 * 100" 7881299347898369]
    by simp
qed simp_all

lemma percent_4_9: "percent (Num 4) (Num 9) = Num (3127499741229511 / 70368744177664)"
proof (rule percent_eval [where q = "2001599834386887 / 4503599627370496"])
  show "fl (4 / 9) = Num (2001599834386887 / 4503599627370496)"
    using fl_normal [of "- 2" "4 / 9" 8006399337547548] by simp
  show "fl (2001599834386887 / 4503599627370496 * 100)
        = Num (3127499741229511 / 70368744177664)"
    using fl_normal [of 5 "2001599834386887 / 4503599627370496 * 100" 6254999482459022]
    by simp
qed simp_all

lemma percent_4_7: "percent (Num 4) (Num 7) = Num (2010535547933257 / 35184372088832)"
proof (rule percent_eval [where q = "2573485501354569 / 4503599627370496"])
  show "fl (4 / 7) = Num (2573485501354569 / 4503599627370496)"
    using fl_normal [of "- 1" "4 / 7" 5146971002709138] by simp
  show "fl (2573485501354569 / 4503599627370496 * 100)
        = Num (2010535547933257 / 35184372088832)"
    using fl_normal [of 5 "2573485501354569 / 4503599627370496 * 100" 8042142191733028]
    by simp
qed simp_all

lemma parse_0: "parseInt (Some (js ''0'')) = Num 0"
  by (simp add: parseInt_def js_def is_white_def is_digit_def)

lemma parse_1: "parseInt (Some [0x31]) = Num 1"
  by (simp add: parseInt_def is_white_def is_digit_def fl_one)

lemma parse_7: "parseInt (Some (js ''7'')) = Num 7"
  by (simp add: parseInt_def js_def is_white_def is_digit_def fl_numeral)

lemma parse_9: "parseInt (Some (js ''9'')) = Num 9"
  by (simp add: parseInt_def js_def is_white_def is_digit_def fl_numeral)

lemma parse_10: "parseInt (Some (js ''10'')) = Num 10"
  by (simp add: parseInt_def js_def is_white_def is_digit_def fl_numeral)

lemma parse_100: "parseInt (Some (js ''100'')) = Num 100"
  by (simp add: parseInt_def js_def is_white_def is_digit_def fl_numeral)

lemma parse_abc: "parseInt (Some (js ''abc'')) = NaN"
  by (simp add: parseInt_def js_def is_white_def is_digit_def)

lemma accented_text: "text_decode accented_chunk = [0xE9, 0x7C, 0x31, 0x0A, 0x41]"
  by (simp add: decode_eval accented_chunk_def)

lemma accented_index: "indexOf (text_decode accented_chunk) newline = Some 3"
  by (simp add: accented_text newline_def)

lemma accented_fields:
  "header_fields (take 3 (text_decode accented_chunk)) = ([0xE9], Some [0x31])"
  by (simp add: accented_text header_fields_def bar_def)

lemma accented_total:
  "parseInt (snd (header_fields (take 3 (text_decode accented_chunk)))) = Num 1"
  by (simp add: accented_fields parse_1)

lemma accented_count: "header_count accented_chunk 3 = Num 2"
  using count_value [of accented_chunk 6 "[]" 0 3] by (simp add: accented_chunk_def)

lemma accented_state:
  "fst (read_loop loop_initial [accented_chunk]) =
      \<lparr>currentFileName = [0xE9], chunks = [[0x0A, 0x41]], receivedLength = Num 2,
       totalLength = Some (Num 1), metadataReceived = True\<rparr>"
  unfolding read_loop_header_state [OF accented_index] accented_fields count_after.simps
    accented_count
  by (simp add: parse_1 accented_chunk_def)

lemma accented_events:
  "snd (read_loop loop_initial [accented_chunk]) = [SetFileName [0xE9], SetProgress (Num 200)]"
proof -
  have t: "truthy (parseInt (snd (header_fields (take 3 (text_decode accented_chunk)))))"
    by (simp add: accented_total truthy_def)
  have u: "[0..<Suc (length ([] :: byte list list))] = [0]" by simp
  show ?thesis
    unfolding read_loop_header_values [OF accented_index t] u accented_fields
    by (simp add: parse_1 accented_count percent_2_1)
qed

lemma accented_name: "download_name Video [0xE9] = [0xE9] @ js ''.mp4''"
  by (simp add: download_name_def fileExtension_def dot_def)

text \<open>The headers of ASCII characters: where the line feed is, and the two fields.\<close>

lemma movie_bytes:
  "indexOf movie_chunk 10 = Some 13"
  "list_all (\<lambda>b. b < 0x80) (take 13 movie_chunk)"
  "header_fields (map ucast (take 13 movie_chunk)) = (js ''movie.webm'', Some (js ''10''))"
  by (simp_all add: movie_chunk_def bytes_def js_def header_fields_def bar_def)

lemmas movie_header = ascii_header_eval [OF movie_bytes]

lemma zero_total_bytes:
  "indexOf zero_total_chunk 10 = Some 3"
  "list_all (\<lambda>b. b < 0x80) (take 3 zero_total_chunk)"
  "header_fields (map ucast (take 3 zero_total_chunk)) = (js ''f'', Some (js ''0''))"
  by (simp_all add: zero_total_chunk_def bytes_def js_def header_fields_def bar_def)

lemmas zero_total_header = ascii_header_eval [OF zero_total_bytes]

lemma song_bytes:
  "indexOf song_chunk 10 = Some 12"
  "list_all (\<lambda>b. b < 0x80) (take 12 song_chunk)"
  "header_fields (map ucast (take 12 song_chunk)) = (js ''song.ogg'', Some (js ''abc''))"
  by (simp_all add: song_chunk_def bytes_def js_def header_fields_def bar_def)

lemmas song_header = ascii_header_eval [OF song_bytes]

lemma late_header_bytes:
  "indexOf late_header_chunk 10 = Some 4"
  "list_all (\<lambda>b. b < 0x80) (take 4 late_header_chunk)"
  "header_fields (map ucast (take 4 late_header_chunk)) = (js ''bm'', Some (js ''7''))"
  by (simp_all add: late_header_chunk_def bytes_def js_def header_fields_def bar_def)

lemmas late_header = ascii_header_eval [OF late_header_bytes]

lemma rounding_bytes:
  "indexOf rounding_chunk 10 = Some 5"
  "list_all (\<lambda>b. b < 0x80) (take 5 rounding_chunk)"
  "header_fields (map ucast (take 5 rounding_chunk)) = (js ''f'', Some (js ''100''))"
  by (simp_all add: rounding_chunk_def bytes_def js_def header_fields_def bar_def)

lemmas rounding_header = ascii_header_eval [OF rounding_bytes]

text \<open>The loop on a stream of one chunk that holds the header.\<close>

lemma single_chunk:
  assumes "indexOf (text_decode v) newline = Some i"
    and "fst (header_fields (take i (text_decode v))) = name" and "name \<noteq> []"
    and "snd (header_fields (take i (text_decode v))) = sz" and "parseInt sz = t"
    and "header_count v i = r" and "drop (Suc i) v = rest"
  shows "fst (read_loop loop_initial [v]) =
      \<lparr>currentFileName = name, chunks = [rest], receivedLength = r,
       totalLength = Some t, metadataReceived = True\<rparr>"
    and "snd (read_loop loop_initial [v]) =
      SetFileName name # (if truthy t then [SetProgress (percent r t)] else [])"
proof -
  show "fst (read_loop loop_initial [v]) =
      \<lparr>currentFileName = name, chunks = [rest], receivedLength = r,
       totalLength = Some t, metadataReceived = True\<rparr>"
    unfolding read_loop_header_state [OF assms(1)] count_after.simps assms(2,4,5,6,7)
    using assms(3) by simp
  show "snd (read_loop loop_initial [v]) =
      SetFileName name # (if truthy t then [SetProgress (percent r t)] else [])"
  proof (cases "truthy t")
    case True
    then have tr: "truthy (parseInt (snd (header_fields (take i (text_decode v)))))"
      by (simp add: assms(4,5))
    have u: "[0..<Suc (length ([] :: byte list list))] = [0]" by simp
    show ?thesis
      unfolding read_loop_header_values [OF assms(1) tr] u assms(2,4,5)
      using True assms(3,6) by simp
  next
    case False
    then have tr: "\<not> truthy (parseInt (snd (header_fields (take i (text_decode v)))))"
      by (simp add: assms(4,5))
    show ?thesis
      unfolding read_loop_header_silent [OF assms(1) tr] assms(2)
      using False assms(3) by simp
  qed
qed

lemma movie_count: "header_count movie_chunk 13 = Num 4"
  using count_value [of movie_chunk 18 "[]" 0 13] by (simp add: movie_chunk_def bytes_def)

lemma movie_counts:
  "count_after (header_count movie_chunk 13) [] = Num 4"
  "count_after (header_count movie_chunk 13) [bytes ''BBBBBB''] = Num 10"
  "count_after (header_count movie_chunk 13) [bytes ''BBBBBB'', bytes ''CC''] = Num 12"
  using count_value [of movie_chunk 18 "[]" 0 13]
    count_value [of movie_chunk 18 "[bytes ''BBBBBB'']" 6 13]
    count_value [of movie_chunk 18 "[bytes ''BBBBBB'', bytes ''CC'']" 8 13]
  by (simp_all add: movie_chunk_def bytes_def)

lemma movie_rest: "drop (Suc 13) movie_chunk = bytes ''AAAA''"
  by (simp add: movie_chunk_def bytes_def)

lemma js_nonempty: "js ''movie.webm'' \<noteq> []" "js ''f'' \<noteq> []" "js ''bm'' \<noteq> []"
  "js ''song.ogg'' \<noteq> []" "js ''a.b'' \<noteq> []"
  by (simp_all add: js_def)

lemmas movie_single =
  single_chunk [OF movie_header(1,2) js_nonempty(1) movie_header(3) parse_10 movie_count
    movie_rest]

lemma zero_total_count: "header_count zero_total_chunk 3 = Num 4"
  using count_value [of zero_total_chunk 8 "[]" 0 3]
  by (simp add: zero_total_chunk_def bytes_def)

lemma zero_total_rest: "drop (Suc 3) zero_total_chunk = bytes ''AAAA''"
  by (simp add: zero_total_chunk_def bytes_def)

lemmas zero_total_single =
  single_chunk [OF zero_total_header(1,2) js_nonempty(2) zero_total_header(3) parse_0
    zero_total_count zero_total_rest]

lemma rounding_count: "header_count rounding_chunk 5 = Num 7"
  using count_value [of rounding_chunk 13 "[]" 0 5]
  by (simp add: rounding_chunk_def bytes_def)

lemma rounding_rest: "drop (Suc 5) rounding_chunk = bytes ''AAAAAAA''"
  by (simp add: rounding_chunk_def bytes_def)

lemmas rounding_single =
  single_chunk [OF rounding_header(1,2) js_nonempty(2) rounding_header(3) parse_100
    rounding_count rounding_rest]

lemma late_header_count: "header_count late_header_chunk 4 = Num 4"
  using count_value [of late_header_chunk 9 "[]" 0 4]
  by (simp add: late_header_chunk_def bytes_def)

lemma late_header_rest: "drop (Suc 4) late_header_chunk = bytes ''AAAA''"
  by (simp add: late_header_chunk_def bytes_def)

lemmas late_header_single =
  single_chunk [OF late_header(1,2) js_nonempty(3) late_header(3) parse_7
    late_header_count late_header_rest]

lemma truthy_Num: "truthy (Num x) \<longleftrightarrow> x \<noteq> 0"
  by (simp add: truthy_def)


section \<open>The claims\<close>

subsection \<open>C1: the assembled blob\<close>

text \<open>
  C1 says that, when the first chunk holds the line feed, the blob is the bytes of that
  chunk after the line feed followed by every later chunk, the header left out once.
  The source cuts the chunk at \<^verbatim>\<open>metadataEndIndex + 1\<close>, an index into the decoded text,
  which is the byte index only while every character before the line feed is one byte
  long (lemma \<open>ascii_header_buffer\<close>). C1 at the chunk C3 A9 7C 31 0A 41, the header
  \<^verbatim>\<open>e-acute|1\<close> and the payload byte 41: the text index of the line feed is 3, its byte
  index is 4, and the blob handed over is 0A 41, the line feed of the header and the
  payload, where C1 has the payload 41 alone.
\<close>

theorem accented_header_leaks_into_blob:
  "indexOf accented_chunk 10 = Some 4
   \<and> indexOf (text_decode accented_chunk) newline = Some 3
   \<and> handleDownload idle (Resolved (success [accented_chunk] None)) =
       reset_events
       @ [SetFileName [0xE9], SetProgress (Num 200),
          SaveFile ([0xE9] @ js ''.mp4'') [0x0A, 0x41], SetIsDownloading False]"
proof -
  have "handleDownload idle (Resolved (success [accented_chunk] None)) =
       reset_events
       @ [SetFileName [0xE9], SetProgress (Num 200),
          SaveFile ([0xE9] @ js ''.mp4'') [0x0A, 0x41], SetIsDownloading False]"
    unfolding handleDownload_complete [OF ok_success body_success] accented_state accented_events
    using accented_name by (simp add: idle_def)
  moreover have "indexOf accented_chunk 10 = Some 4" by (simp add: accented_chunk_def)
  ultimately show ?thesis using accented_index by simp
qed

subsection \<open>C2: the progress value\<close>

text \<open>
  C2 says that whenever the total length parsed from the header is known, the progress
  reported after every chunk is 100 times the received bytes over the total, unclamped.
  The source reports under \<^verbatim>\<open>if (totalLength)\<close>, which a parsed total of zero fails like an
  unknown one, and it computes \<^verbatim>\<open>(receivedLength / totalLength) * 100\<close> in doubles, the
  quotient rounded and then the product (the counterexample below has both). C2 as
  amended: let \<open>t\<close> be the total parsed from the header. The events of the loop are the file
  name, followed, when \<open>t\<close> is a number other than zero, by one progress value for every
  chunk from the header chunk on: the value after the header chunk and \<open>k\<close> further chunks
  is the double product by 100 of the double quotient of the count of received bytes after
  that chunk by \<open>t\<close>, whatever its size. When \<open>t\<close> is zero or NaN, no progress is reported.
  Chunks without a line feed that come before the header chunk report nothing. The count
  is the loop's \<^verbatim>\<open>receivedLength\<close>; what it counts is the matter of C7.
\<close>

theorem progress_is_rounded_percentage:
  assumes "list_all (\<lambda>c. 10 \<notin> set c) pre"
    and "indexOf (text_decode v) newline = Some i"
    and "parseInt (snd (header_fields (take i (text_decode v)))) = t"
  shows "totalLength (fst (read_loop loop_initial (pre @ v # vs))) = Some t
    \<and> snd (read_loop loop_initial (pre @ v # vs)) =
      SetFileName
          (if fst (header_fields (take i (text_decode v))) = [] then js ''download''
           else fst (header_fields (take i (text_decode v))))
      # (if truthy t
         then map (\<lambda>k. SetProgress
                    (dmul (ddiv (receivedLength
                                   (fst (read_loop loop_initial (pre @ v # take k vs)))) t)
                       (Num 100)))
                [0..<Suc (length vs)]
         else [])"
proof -
  have skip: "read_loop loop_initial (pre @ v # ws) = read_loop loop_initial (v # ws)" for ws
    using assms(1) by (rule read_loop_skip)
  have total: "totalLength (fst (read_loop loop_initial (v # vs))) = Some t"
    by (simp only: read_loop_header_state [OF assms(2)] assms(3) loop_state.simps)
  show ?thesis
  proof (cases "truthy t")
    case True
    then have tr: "truthy (parseInt (snd (header_fields (take i (text_decode v)))))"
      by (simp add: assms(3))
    show ?thesis
      unfolding skip read_loop_header_progress [OF assms(2) tr] percent_def
      using total True assms(3) by simp
  next
    case False
    then have tr: "\<not> truthy (parseInt (snd (header_fields (take i (text_decode v)))))"
      by (simp add: assms(3))
    show ?thesis
      unfolding skip read_loop_header_silent [OF assms(2) tr]
      using total False by simp
  qed
qed

text \<open>The header announces 10 bytes and 4, 10 and 12 have arrived after the three chunks:
  the values are 40, 100 and 120.\<close>

theorem progress_is_rounded_percentage_witness:
  "list_all (\<lambda>c. 10 \<notin> set c) ([] :: byte list list)
   \<and> indexOf (text_decode movie_chunk) newline = Some 13
   \<and> parseInt (snd (header_fields (take 13 (text_decode movie_chunk)))) = Num 10
   \<and> truthy (Num 10)
   \<and> receivedLength (fst (read_loop loop_initial [movie_chunk, bytes ''BBBBBB'', bytes ''CC'']))
       = Num 12
   \<and> snd (read_loop loop_initial [movie_chunk, bytes ''BBBBBB'', bytes ''CC''])
       = [SetFileName (js ''movie.webm''), SetProgress (Num 40), SetProgress (Num 100),
          SetProgress (Num 120)]"
proof -
  have a: "list_all (\<lambda>c. 10 \<notin> set c) ([] :: byte list list)" by simp
  have c: "parseInt (snd (header_fields (take 13 (text_decode movie_chunk)))) = Num 10"
    by (simp add: movie_header parse_10)
  have d: "truthy (Num 10)" by (simp add: truthy_def)
  have u: "[0..<Suc (length [bytes ''BBBBBB'', bytes ''CC''])] = [0, 1, 2]"
    by (simp add: upt_rec)
  have r: "receivedLength (fst (read_loop loop_initial (movie_chunk # ws)))
           = count_after (header_count movie_chunk 13) ws" for ws
    by (simp only: read_loop_header_state [OF movie_header(1)] loop_state.simps)
  have "snd (read_loop loop_initial ([] @ movie_chunk # [bytes ''BBBBBB'', bytes ''CC'']))
       = [SetFileName (js ''movie.webm''), SetProgress (Num 40), SetProgress (Num 100),
          SetProgress (Num 120)]"
    using progress_is_rounded_percentage [OF a movie_header(1) c,
        of "[bytes ''BBBBBB'', bytes ''CC'']"]
    unfolding u movie_header(2) append_Nil r
    by (simp add: d js_nonempty movie_counts percent_4_10 [unfolded percent_def]
        percent_10_10 [unfolded percent_def] percent_12_10 [unfolded percent_def]
        del: count_after.simps)
  moreover have "receivedLength
        (fst (read_loop loop_initial [movie_chunk, bytes ''BBBBBB'', bytes ''CC''])) = Num 12"
    unfolding r movie_counts ..
  ultimately show ?thesis using a movie_header(1) c d by simp
qed

text \<open>The header \<^verbatim>\<open>f|0\<close>: the total is known and nothing is reported. The header \<^verbatim>\<open>f|100\<close>
  with 7 bytes received: the value reported is 7.000000000000001, the double above 7.\<close>

theorem progress_zero_total_and_rounding_counterexample:
  "totalLength (fst (read_loop loop_initial [zero_total_chunk])) = Some (Num 0)
   \<and> snd (read_loop loop_initial [zero_total_chunk]) = [SetFileName (js ''f'')]
   \<and> \<not> list_ex is_SetProgress (snd (read_loop loop_initial [zero_total_chunk]))
   \<and> totalLength (fst (read_loop loop_initial [rounding_chunk])) = Some (Num 100)
   \<and> receivedLength (fst (read_loop loop_initial [rounding_chunk])) = Num 7
   \<and> snd (read_loop loop_initial [rounding_chunk])
       = [SetFileName (js ''f''), SetProgress (Num (7881299347898369 / 1125899906842624))]
   \<and> (7881299347898369 / 1125899906842624 :: rat) \<noteq> 100 * 7 / 100"
proof -
  have "snd (read_loop loop_initial [zero_total_chunk]) = [SetFileName (js ''f'')]"
    unfolding zero_total_single(2) by (simp add: truthy_def)
  moreover have "snd (read_loop loop_initial [rounding_chunk])
       = [SetFileName (js ''f''), SetProgress (Num (7881299347898369 / 1125899906842624))]"
    unfolding rounding_single(2) percent_7_100 by (simp add: truthy_def)
  ultimately show ?thesis
    unfolding zero_total_single(1) rounding_single(1) by simp
qed

subsection \<open>C3: a size that is not a number\<close>

text \<open>
  C3: when the size field of the header does not parse as a base-10 integer, the attempt
  is not an error. The total stays NaN, no progress value is reported, no error is set,
  and the attempt completes: its events after the reset are the file name, the hand-over
  of the blob (the buffered bytes of the header chunk and every later chunk) under the
  derived name, and the end of the download. The header may come after chunks without a
  line feed; \<open>i\<close> is the index of the line feed in the decoded text of the header chunk.
\<close>

theorem unparseable_size_is_not_an_error:
  assumes "ok r" and "body r = Some \<lparr>stream_chunks = pre @ v # vs, ending = None\<rparr>"
    and "list_all (\<lambda>c. 10 \<notin> set c) pre"
    and "indexOf (text_decode v) newline = Some i"
    and "parseInt (snd (header_fields (take i (text_decode v)))) = NaN"
  shows "totalLength (fst (read_loop loop_initial (pre @ v # vs))) = Some NaN
    \<and> handleDownload s (Resolved r) =
      reset_events
      @ [SetFileName
           (if fst (header_fields (take i (text_decode v))) = [] then js ''download''
            else fst (header_fields (take i (text_decode v)))),
         SaveFile
           (download_name (downloadType s)
              (if fst (header_fields (take i (text_decode v))) = [] then js ''download''
               else fst (header_fields (take i (text_decode v)))))
           (drop (Suc i) v @ concat vs),
         SetIsDownloading False]"
proof -
  have skip: "read_loop loop_initial (pre @ v # vs) = read_loop loop_initial (v # vs)"
    using assms(3) by (rule read_loop_skip)
  have st: "fst (read_loop loop_initial (pre @ v # vs)) =
    \<lparr>currentFileName =
        (if fst (header_fields (take i (text_decode v))) = [] then js ''download''
         else fst (header_fields (take i (text_decode v)))),
      chunks = drop (Suc i) v # vs,
      receivedLength = count_after (header_count v i) vs,
      totalLength = Some (parseInt (snd (header_fields (take i (text_decode v))))),
      metadataReceived = True\<rparr>"
    unfolding skip using assms(4) by (rule read_loop_header_state)
  have nt: "\<not> truthy (parseInt (snd (header_fields (take i (text_decode v)))))"
    by (simp add: assms(5) truthy_def)
  have ev: "snd (read_loop loop_initial (pre @ v # vs)) =
    [SetFileName
        (if fst (header_fields (take i (text_decode v))) = [] then js ''download''
         else fst (header_fields (take i (text_decode v))))]"
    unfolding skip using assms(4) nt by (rule read_loop_header_silent)
  show ?thesis
    unfolding handleDownload_complete [OF assms(1,2)] st ev using assms(5) by simp
qed

text \<open>The size field is \<^verbatim>\<open>abc\<close>; in audio mode \<^verbatim>\<open>song.ogg\<close> is saved as \<^verbatim>\<open>song.mp3\<close>.\<close>

theorem unparseable_size_is_not_an_error_witness:
  "ok (success [song_chunk, bytes ''CD''] None)
   \<and> list_all (\<lambda>c. 10 \<notin> set c) ([] :: byte list list)
   \<and> indexOf (text_decode song_chunk) newline = Some 12
   \<and> parseInt (snd (header_fields (take 12 (text_decode song_chunk)))) = NaN
   \<and> handleDownload (idle\<lparr>downloadType := Audio\<rparr>)
        (Resolved (success [song_chunk, bytes ''CD''] None)) =
      reset_events
      @ [SetFileName (js ''song.ogg''), SaveFile (js ''song.mp3'') (bytes ''ABCD''),
         SetIsDownloading False]"
proof -
  have b: "body (success [song_chunk, bytes ''CD''] None)
           = Some \<lparr>stream_chunks = [] @ song_chunk # [bytes ''CD''], ending = None\<rparr>"
    by (simp add: success_def)
  have a: "list_all (\<lambda>c. 10 \<notin> set c) ([] :: byte list list)" by simp
  have p: "parseInt (snd (header_fields (take 12 (text_decode song_chunk)))) = NaN"
    by (simp add: song_header parse_abc)
  have n: "download_name Audio (js ''song.ogg'') = js ''song.mp3''"
    by (simp add: download_name_def fileExtension_def js_def dot_def slash_def)
  have ne: "js ''song.ogg'' \<noteq> []" by (simp add: js_def)
  have d: "drop (Suc 12) song_chunk @ concat [bytes ''CD''] = bytes ''ABCD''"
    by (simp add: song_chunk_def bytes_def)
  have "handleDownload (idle\<lparr>downloadType := Audio\<rparr>)
        (Resolved (success [song_chunk, bytes ''CD''] None)) =
      reset_events
      @ [SetFileName (js ''song.ogg''), SaveFile (js ''song.mp3'') (bytes ''ABCD''),
         SetIsDownloading False]"
    using unparseable_size_is_not_an_error [OF ok_success b a song_header(1) p,
        of "idle\<lparr>downloadType := Audio\<rparr>"]
    unfolding song_header(2) d by (simp add: n ne)
  with ok_success a song_header(1) p show ?thesis by simp
qed

subsection \<open>C4: a status that is not a success\<close>




subsection \<open>C5: nothing of a failed attempt is handed over\<close>

text \<open>
  C5: an attempt that fails (\<^verbatim>\<open>fetch\<close> rejects, the status is not a success, the response
  has no body, or a read of the stream rejects) hands no file to the browser, whatever was
  buffered before. Its events are the reset, what the chunks read so far reported, the
  error message and the end of the download; afterwards the component is no longer
  downloading, and of the attempt it shows the error message alone (nothing when the
  message is empty): neither the progress bar nor the file name.
\<close>

theorem failed_attempt_exposes_no_file:
  assumes "failing fr"
  shows "\<exists>evs msg.
           handleDownload s fr = reset_events @ evs @ [SetError msg, SetIsDownloading False]
           \<and> \<not> list_ex is_SaveFile (handleDownload s fr)
           \<and> error (run_events s (handleDownload s fr)) = msg
           \<and> \<not> isDownloading (run_events s (handleDownload s fr))
           \<and> render (run_events s (handleDownload s fr))
               = (if msg = [] then [] else [ErrorAlert msg])"
proof -
  from try_block_failing [OF assms, of "downloadType s"] obtain err where
    err: "snd (try_block (downloadType s) fr) = Some err"
    and ns: "\<not> list_ex is_SaveFile (fst (try_block (downloadType s) fr))" by blast
  let ?evs = "fst (try_block (downloadType s) fr)"
  have eq: "handleDownload s fr = reset_events @ ?evs @ [SetError (message err), SetIsDownloading False]"
    using err by (simp add: handleDownload_def catch_finally_def)
  have "\<not> list_ex is_SaveFile (handleDownload s fr)"
    unfolding eq using ns by (simp add: reset_events_def)
  moreover have fin: "error (run_events s (handleDownload s fr)) = message err"
    "\<not> isDownloading (run_events s (handleDownload s fr))"
    unfolding eq using run_events_failed [of s "reset_events @ ?evs" "message err"] by simp_all
  moreover have "render (run_events s (handleDownload s fr))
               = (if message err = [] then [] else [ErrorAlert (message err)])"
    using fin by (simp add: render_def)
  ultimately show ?thesis using eq by blast
qed

text \<open>The stream breaks after the header and four payload bytes of nine: the progress
  44.44444444444444 was reported, and the four bytes are not handed over.\<close>

theorem failed_attempt_exposes_no_file_witness:
  "failing broken_stream
   \<and> handleDownload idle broken_stream =
       reset_events
       @ [SetFileName (js ''a.b''), SetProgress (Num (3127499741229511 / 70368744177664)),
          SetError (js ''network error''), SetIsDownloading False]
   \<and> \<not> list_ex is_SaveFile (handleDownload idle broken_stream)
   \<and> render (run_events idle (handleDownload idle broken_stream))
       = [ErrorAlert (js ''network error'')]"
proof -
  have f: "failing broken_stream"
    by (simp add: failing_def broken_stream_def success_def ok_def)
  let ?v = "bytes ''a.b|9\<newline>AAAA''"
  have a: "indexOf ?v 10 = Some 5" by (simp add: bytes_def)
  have b: "list_all (\<lambda>b. b < 0x80) (take 5 ?v)" by (simp add: bytes_def)
  have c: "header_fields (map ucast (take 5 ?v)) = (js ''a.b'', Some (js ''9''))"
    by (simp add: bytes_def js_def header_fields_def bar_def)
  note h = ascii_header_eval [OF a b c]
  have r: "header_count ?v 5 = Num 4"
    using count_value [of ?v 10 "[]" 0 5] by (simp add: bytes_def)
  have d: "drop (Suc 5) ?v = bytes ''AAAA''" by (simp add: bytes_def)
  have ev: "snd (read_loop loop_initial [?v])
            = [SetFileName (js ''a.b''), SetProgress (Num (3127499741229511 / 70368744177664))]"
    unfolding single_chunk(2) [OF h(1,2) js_nonempty(5) h(3) parse_9 r d] percent_4_9
    by (simp add: truthy_def)
  have eq: "handleDownload idle broken_stream =
       reset_events
       @ [SetFileName (js ''a.b''), SetProgress (Num (3127499741229511 / 70368744177664)),
          SetError (js ''network error''), SetIsDownloading False]"
    unfolding broken_stream_def handleDownload_failed_read [OF ok_success body_success] ev
    by simp
  from failed_attempt_exposes_no_file [OF f, of idle] obtain evs msg where
    m: "handleDownload idle broken_stream = reset_events @ evs @ [SetError msg, SetIsDownloading False]"
    and r: "\<not> list_ex is_SaveFile (handleDownload idle broken_stream)"
      "render (run_events idle (handleDownload idle broken_stream))
        = (if msg = [] then [] else [ErrorAlert msg])"
    by blast
  from m eq have "msg = js ''network error''" by simp
  moreover have "js ''network error'' \<noteq> []" by (simp add: js_def)
  ultimately show ?thesis using f eq r by simp
qed

subsection \<open>C6: the name of the saved file\<close>

text \<open>
  C6: the name under which the file is saved when the attempt completes. An attempt
  completes when the status is a success and the stream of the body ends without a failed
  read; its events then end with the hand-over of the blob under a name, and the end of
  the download. The name is derived from the working name, the file name the loop holds
  when the stream ends. A dot-suffix of a name is a dot followed, up to the end of the
  name, by an extension: one or more characters, none of them a dot or a slash. For a
  working name with no dot-suffix (in particular a name without a dot) the file is saved
  under the working name with the extension of the mode appended. For a working name that
  ends in a dot-suffix it is saved under the name without this last suffix, with the
  extension of the mode appended, whatever stands before the suffix, so also when it is
  the only one. The extension is \<^verbatim>\<open>.mp3\<close> in audio mode and \<^verbatim>\<open>.mp4\<close> in video mode.
\<close>

theorem output_name_extension:
  assumes "ok r" and "body r = Some \<lparr>stream_chunks = cs, ending = None\<rparr>"
    and "currentFileName (fst (read_loop loop_initial cs)) = name"
  shows "\<exists>saved.
      handleDownload s (Resolved r) =
        reset_events @ snd (read_loop loop_initial cs)
        @ [SaveFile saved (concat (chunks (fst (read_loop loop_initial cs)))),
           SetIsDownloading False]
      \<and> ((\<forall>b e. name = b @ dot # e \<longrightarrow> e = [] \<or> dot \<in> set e \<or> slash \<in> set e) \<longrightarrow>
           saved = name @ (case downloadType s of Audio \<Rightarrow> js ''.mp3'' | Video \<Rightarrow> js ''.mp4''))
      \<and> (\<forall>base ext. name = base @ dot # ext \<and> ext \<noteq> [] \<and> dot \<notin> set ext \<and> slash \<notin> set ext \<longrightarrow>
           saved = base @ (case downloadType s of Audio \<Rightarrow> js ''.mp3'' | Video \<Rightarrow> js ''.mp4''))"
proof -
  have ext: "fileExtension t = (case t of Audio \<Rightarrow> js ''.mp3'' | Video \<Rightarrow> js ''.mp4'')" for t
    by (cases t) (simp_all add: fileExtension_def)
  have ev: "handleDownload s (Resolved r) =
        reset_events @ snd (read_loop loop_initial cs)
        @ [SaveFile (download_name (downloadType s) name)
             (concat (chunks (fst (read_loop loop_initial cs)))),
           SetIsDownloading False]"
    unfolding handleDownload_complete [OF assms(1,2)] assms(3) ..
  have "(\<forall>b e. name = b @ dot # e \<longrightarrow> e = [] \<or> dot \<in> set e \<or> slash \<in> set e) \<longrightarrow>
      download_name (downloadType s) name
      = name @ (case downloadType s of Audio \<Rightarrow> js ''.mp3'' | Video \<Rightarrow> js ''.mp4'')"
    by (simp add: download_name_def ext strip_extension_unchanged)
  moreover have "\<forall>base ext. name = base @ dot # ext \<and> ext \<noteq> [] \<and> dot \<notin> set ext \<and> slash \<notin> set ext \<longrightarrow>
      download_name (downloadType s) name
      = base @ (case downloadType s of Audio \<Rightarrow> js ''.mp3'' | Video \<Rightarrow> js ''.mp4'')"
    by (auto simp: download_name_def ext strip_extension_suffix)
  ultimately show ?thesis using ev by blast
qed

text \<open>In audio mode \<^verbatim>\<open>movie.webm\<close> is saved as \<^verbatim>\<open>movie.mp3\<close>; in video mode \<^verbatim>\<open>f\<close> is
  saved as \<^verbatim>\<open>f.mp4\<close>.\<close>

theorem output_name_extension_witness:
  "ok (success [movie_chunk] None)
   \<and> currentFileName (fst (read_loop loop_initial [movie_chunk])) = js ''movie'' @ dot # js ''webm''
   \<and> js ''webm'' \<noteq> [] \<and> dot \<notin> set (js ''webm'') \<and> slash \<notin> set (js ''webm'')
   \<and> handleDownload (idle\<lparr>downloadType := Audio\<rparr>) (Resolved (success [movie_chunk] None)) =
       reset_events
       @ [SetFileName (js ''movie.webm''), SetProgress (Num 40),
          SaveFile (js ''movie.mp3'') (bytes ''AAAA''), SetIsDownloading False]
   \<and> ok (success [zero_total_chunk] None)
   \<and> currentFileName (fst (read_loop loop_initial [zero_total_chunk])) = js ''f''
   \<and> dot \<notin> set (js ''f'')
   \<and> handleDownload idle (Resolved (success [zero_total_chunk] None)) =
       reset_events
       @ [SetFileName (js ''f''), SaveFile (js ''f.mp4'') (bytes ''AAAA''),
          SetIsDownloading False]"
proof -
  have mn: "currentFileName (fst (read_loop loop_initial [movie_chunk]))
            = js ''movie'' @ dot # js ''webm''"
    unfolding movie_single(1) by (simp add: js_def dot_def)
  have me: "js ''webm'' \<noteq> [] \<and> dot \<notin> set (js ''webm'') \<and> slash \<notin> set (js ''webm'')"
    by (simp add: js_def dot_def slash_def)
  have mj: "js ''movie'' @ js ''.mp3'' = js ''movie.mp3''" by (simp add: js_def)
  from output_name_extension [OF ok_success body_success mn, of "idle\<lparr>downloadType := Audio\<rparr>"]
  obtain saved where
    m1: "handleDownload (idle\<lparr>downloadType := Audio\<rparr>) (Resolved (success [movie_chunk] None)) =
        reset_events @ snd (read_loop loop_initial [movie_chunk])
        @ [SaveFile saved (concat (chunks (fst (read_loop loop_initial [movie_chunk])))),
           SetIsDownloading False]"
    and m2: "\<forall>base ext. js ''movie'' @ dot # js ''webm'' = base @ dot # ext
        \<and> ext \<noteq> [] \<and> dot \<notin> set ext \<and> slash \<notin> set ext \<longrightarrow>
           saved = base @ (case downloadType (idle\<lparr>downloadType := Audio\<rparr>) of
                             Audio \<Rightarrow> js ''.mp3'' | Video \<Rightarrow> js ''.mp4'')"
    by blast
  from m2 me have "saved = js ''movie'' @ js ''.mp3''" by simp
  then have movie: "handleDownload (idle\<lparr>downloadType := Audio\<rparr>)
        (Resolved (success [movie_chunk] None)) =
       reset_events
       @ [SetFileName (js ''movie.webm''), SetProgress (Num 40),
          SaveFile (js ''movie.mp3'') (bytes ''AAAA''), SetIsDownloading False]"
    unfolding m1 movie_single percent_4_10 mj by (simp add: truthy_def)
  have fn: "currentFileName (fst (read_loop loop_initial [zero_total_chunk])) = js ''f''"
    unfolding zero_total_single(1) by simp
  have fd: "dot \<notin> set (js ''f'')" by (simp add: js_def dot_def)
  then have fs: "\<forall>b e. js ''f'' = b @ dot # e \<longrightarrow> e = [] \<or> dot \<in> set e \<or> slash \<in> set e"
    by (rule no_dot_no_suffix)
  have fj: "js ''f'' @ js ''.mp4'' = js ''f.mp4''" by (simp add: js_def)
  from output_name_extension [OF ok_success body_success fn, of idle]
  obtain saved' where
    f1: "handleDownload idle (Resolved (success [zero_total_chunk] None)) =
        reset_events @ snd (read_loop loop_initial [zero_total_chunk])
        @ [SaveFile saved' (concat (chunks (fst (read_loop loop_initial [zero_total_chunk])))),
           SetIsDownloading False]"
    and f2: "(\<forall>b e. js ''f'' = b @ dot # e \<longrightarrow> e = [] \<or> dot \<in> set e \<or> slash \<in> set e) \<longrightarrow>
           saved' = js ''f'' @ (case downloadType idle of
                                  Audio \<Rightarrow> js ''.mp3'' | Video \<Rightarrow> js ''.mp4'')"
    by blast
  from f2 fs have "saved' = js ''f'' @ js ''.mp4''" by (simp add: idle_def)
  then have zero: "handleDownload idle (Resolved (success [zero_total_chunk] None)) =
       reset_events
       @ [SetFileName (js ''f''), SaveFile (js ''f.mp4'') (bytes ''AAAA''),
          SetIsDownloading False]"
    unfolding f1 zero_total_single fj by (simp add: truthy_def)
  show ?thesis using ok_success mn me movie fn fd zero by simp
qed

subsection \<open>C7: the count of received bytes\<close>

text \<open>
  C7 says that at the header chunk the count of received bytes grows by the payload part
  of the chunk only, never by header bytes, and that with a correctly reported total the
  count never decreases and equals the total at completion. While it is below \<open>2^53\<close> the
  count never decreases (lemma \<open>received_nondecreasing\<close>), and for a header of one-byte
  characters it is the number of payload bytes (lemma \<open>ascii_header_count\<close>). The source
  adds \<^verbatim>\<open>value.length - (metadataEndIndex + 1)\<close> with the index of the line feed in the
  decoded text, the slip of C1. C7 at the chunk C3 A9 7C 31 0A 41, whose header reports
  the total 1 and whose payload is the one byte after the line feed: the count after the
  chunk, which is the count at completion, is 2.
\<close>

theorem accented_header_bytes_are_counted:
  "drop (Suc 4) accented_chunk = [0x41]
   \<and> indexOf accented_chunk 10 = Some 4
   \<and> totalLength (fst (read_loop loop_initial [accented_chunk])) = Some (Num 1)
   \<and> receivedLength (fst (read_loop loop_initial [accented_chunk])) = Num 2"
proof -
  have "drop (Suc 4) accented_chunk = [0x41]" "indexOf accented_chunk 10 = Some 4"
    by (simp_all add: accented_chunk_def)
  then show ?thesis unfolding accented_state by simp
qed

subsection \<open>C8: the reset at the start of an attempt\<close>

text \<open>
  C8: whatever the response, the events of an attempt start with the reset, so that the
  file name, the error message and the progress of the attempt before are cleared (empty,
  empty and zero) and the component is downloading before any chunk of the new attempt is
  read; the events of the chunks come after the reset.
\<close>

theorem reset_clears_prior_attempt:
  "prefix reset_events (handleDownload s fr)
   \<and> fileName (run_events s reset_events) = []
   \<and> error (run_events s reset_events) = []
   \<and> progress (run_events s reset_events) = Num 0
   \<and> isDownloading (run_events s reset_events)"
  by (simp add: handleDownload_def run_events_def reset_events_def)

subsection \<open>C9: a header with nothing after it\<close>

text \<open>
  C9 says that a stream with a valid header in its first chunk and no payload byte after
  it completes with an empty blob and no error. The attempt completes without an error,
  and for a header of one-byte characters the blob is empty (lemma
  \<open>ascii_header_buffer\<close>: it is what follows the line feed). By the slip of C1 the blob
  is not empty when the name has a character of more than one byte. C9 at the single chunk
  C3 A9 7C 30 0A, the header \<^verbatim>\<open>e-acute|0\<close> and its line feed: the blob handed over is the
  one byte 0A.
\<close>

theorem accented_header_alone_gives_blob:
  "drop (Suc 4) accented_header_only = []
   \<and> indexOf accented_header_only 10 = Some 4
   \<and> handleDownload idle (Resolved (success [accented_header_only] None)) =
       reset_events
       @ [SetFileName [0xE9], SaveFile ([0xE9] @ js ''.mp4'') [0x0A], SetIsDownloading False]"
proof -
  have d: "text_decode accented_header_only = [0xE9, 0x7C, 0x30, 0x0A]"
    by (simp add: decode_eval accented_header_only_def)
  have i: "indexOf (text_decode accented_header_only) newline = Some 3"
    by (simp add: d newline_def)
  have f: "fst (header_fields (take 3 (text_decode accented_header_only))) = [0xE9]"
    "snd (header_fields (take 3 (text_decode accented_header_only))) = Some [0x30]"
    by (simp_all add: d header_fields_def bar_def)
  have pv: "parseInt (Some [0x30]) = Num 0"
    by (simp add: parseInt_def is_white_def is_digit_def)
  have r: "header_count accented_header_only 3 = Num 1"
    using count_value [of accented_header_only 5 "[]" 0 3]
    by (simp add: accented_header_only_def)
  have rest: "drop (Suc 3) accented_header_only = [0x0A]"
    by (simp add: accented_header_only_def)
  have ne: "[0xE9 :: code_unit] \<noteq> []" by simp
  note single = single_chunk [OF i f(1) ne f(2) pv r rest]
  have "handleDownload idle (Resolved (success [accented_header_only] None)) =
       reset_events
       @ [SetFileName [0xE9], SaveFile ([0xE9] @ js ''.mp4'') [0x0A], SetIsDownloading False]"
    unfolding handleDownload_complete [OF ok_success body_success] single
    using accented_name by (simp add: idle_def truthy_def)
  moreover have "drop (Suc 4) accented_header_only = []"
    "indexOf accented_header_only 10 = Some 4"
    by (simp_all add: accented_header_only_def)
  ultimately show ?thesis by simp
qed

subsection \<open>C10: chunks before the header\<close>

text \<open>
  C10: a chunk without a line-feed byte that arrives before the header was found is
  dropped whole. After any number of such chunks the loop is in its initial state and has
  reported nothing: nothing is buffered, nothing is counted, nothing is kept for the next
  read. The rest of the stream is then read as if these chunks had never arrived, and so
  is the whole attempt; when a header line is split over two reads, the part in the
  earlier read is lost and what stands before the line feed in the later read is taken
  for the whole header.
\<close>

theorem chunk_without_terminator_is_dropped:
  assumes "list_all (\<lambda>c. 10 \<notin> set c) pre" and "10 \<notin> set c"
  shows "read_loop loop_initial (pre @ [c]) = (loop_initial, [])
    \<and> read_loop loop_initial (pre @ c # vs) = read_loop loop_initial vs
    \<and> handleDownload s (Resolved (r\<lparr>body := Some \<lparr>stream_chunks = pre @ c # vs, ending = e\<rparr>\<rparr>))
        = handleDownload s (Resolved (r\<lparr>body := Some \<lparr>stream_chunks = vs, ending = e\<rparr>\<rparr>))"
proof -
  from assms have all: "list_all (\<lambda>c. 10 \<notin> set c) (pre @ [c])" by simp
  have one: "read_loop loop_initial (pre @ [c]) = (loop_initial, [])"
    using read_loop_skip [OF all, of "[]"] by simp
  have rest: "read_loop loop_initial (pre @ c # vs) = read_loop loop_initial vs"
    using read_loop_skip [OF all, of vs] by simp
  show ?thesis using one rest handleDownload_same_loop [OF rest] by simp
qed

text \<open>The header \<^verbatim>\<open>movie.webm|7\<close> split after \<^verbatim>\<open>movie.we\<close>: the name is taken to be
  \<^verbatim>\<open>bm\<close>. Four bytes of seven give the progress 57.14285714285714.\<close>

theorem chunk_without_terminator_is_dropped_witness:
  "list_all (\<lambda>c. 10 \<notin> set c) ([] :: byte list list)
   \<and> 10 \<notin> set (bytes ''movie.we'')
   \<and> read_loop loop_initial [bytes ''movie.we''] = (loop_initial, [])
   \<and> read_loop loop_initial [bytes ''movie.we'', late_header_chunk] =
       (\<lparr>currentFileName = js ''bm'', chunks = [bytes ''AAAA''], receivedLength = Num 4,
         totalLength = Some (Num 7), metadataReceived = True\<rparr>,
        [SetFileName (js ''bm''), SetProgress (Num (2010535547933257 / 35184372088832))])
   \<and> handleDownload idle (Resolved (success [bytes ''movie.we'', late_header_chunk] None))
       = handleDownload idle (Resolved (success [late_header_chunk] None))"
proof -
  have a: "list_all (\<lambda>c. 10 \<notin> set c) ([] :: byte list list)" by simp
  have b: "10 \<notin> set (bytes ''movie.we'')" by (simp add: bytes_def)
  note t = chunk_without_terminator_is_dropped [OF a b, where vs = "[late_header_chunk]"
      and s = idle and r = "success [] None" and e = None]
  have ev: "snd (read_loop loop_initial [late_header_chunk])
            = [SetFileName (js ''bm''), SetProgress (Num (2010535547933257 / 35184372088832))]"
    unfolding late_header_single(2) percent_4_7 by (simp add: truthy_def)
  have full: "read_loop loop_initial [late_header_chunk] =
       (\<lparr>currentFileName = js ''bm'', chunks = [bytes ''AAAA''], receivedLength = Num 4,
         totalLength = Some (Num 7), metadataReceived = True\<rparr>,
        [SetFileName (js ''bm''), SetProgress (Num (2010535547933257 / 35184372088832))])"
    using late_header_single(1) ev by (simp add: prod_eq_iff del: read_loop.simps)
  have s: "success [] None\<lparr>body := Some \<lparr>stream_chunks = cs, ending = None\<rparr>\<rparr> = success cs None"
    for cs by (simp add: success_def)
  from t have "read_loop loop_initial [bytes ''movie.we''] = (loop_initial, [])"
    "read_loop loop_initial [bytes ''movie.we'', late_header_chunk]
      = read_loop loop_initial [late_header_chunk]"
    "handleDownload idle (Resolved (success [bytes ''movie.we'', late_header_chunk] None))
       = handleDownload idle (Resolved (success [late_header_chunk] None))"
    by (simp_all add: s)
  with a b full show ?thesis by simp
qed

end
